theory Spec2Isabelle
  imports Main "HOL-Library.Word"
begin

section \<open>JavaScript values used by the DES tool\<close>

text \<open>
  A JavaScript string is a sequence of UTF-16 code units. Strings that come from the
  caller (the key, the plaintext, the hex ciphertext) and the text returned by
  \<^verbatim>\<open>TextDecoder\<close> are modelled as lists of 16-bit words. The strings the program builds
  itself (bit strings, hex output, the text \<^verbatim>\<open>undefined\<close> that JavaScript appends for an
  out-of-range index) consist of ASCII characters only and are modelled as \<^typ>\<open>string\<close>.
\<close>

type_synonym jsstring = "16 word list"

text \<open>The embedding of an ASCII string of the program into caller-side strings.\<close>

definition js :: "string \<Rightarrow> jsstring" where
  "js s = map (\<lambda>c. of_nat (of_char c)) s"

text \<open>
  The program throws \<^verbatim>\<open>new Error(message)\<close>; the runtime throws a \<^verbatim>\<open>TypeError\<close> when a
  property of \<^verbatim>\<open>undefined\<close> is read, and \<^verbatim>\<open>TextDecoder\<close> throws one in fatal mode. The
  message of a \<^verbatim>\<open>TypeError\<close> is chosen by the JavaScript engine and is not modelled.
\<close>

datatype error = Error string | TypeError

text \<open>\<^verbatim>\<open>s.padEnd(n, c)\<close>, \<^verbatim>\<open>s.padStart(n, c)\<close> with a one-character filler,
  \<^verbatim>\<open>s.slice(a, b)\<close> and \<^verbatim>\<open>s.slice(-k)\<close> for non-negative \<open>a\<close>, \<open>b\<close>, \<open>k\<close>.\<close>

definition padEnd :: "'a list \<Rightarrow> nat \<Rightarrow> 'a \<Rightarrow> 'a list" where
  "padEnd s n c = s @ replicate (n - length s) c"

definition padStart :: "'a list \<Rightarrow> nat \<Rightarrow> 'a \<Rightarrow> 'a list" where
  "padStart s n c = replicate (n - length s) c @ s"

definition slice :: "'a list \<Rightarrow> nat \<Rightarrow> nat \<Rightarrow> 'a list" where
  "slice s a b = take (b - a) (drop a s)"

definition sliceLast :: "'a list \<Rightarrow> nat \<Rightarrow> 'a list" where
  "sliceLast s k = drop (length s - k) s"

text \<open>\<^verbatim>\<open>Math.ceil(n / d) * d\<close> on non-negative integers.\<close>

definition ceilTo :: "nat \<Rightarrow> nat \<Rightarrow> nat" where
  "ceilTo n d = ((n + (d - 1)) div d) * d"

text \<open>
  \<^verbatim>\<open>s[i]\<close> is \<^verbatim>\<open>undefined\<close> outside the string. Appended to a string it contributes the
  nine characters \<^verbatim>\<open>undefined\<close> (\<open>jsIndex\<close>); compared with \<^verbatim>\<open>===\<close> it equals only another
  \<^verbatim>\<open>undefined\<close> (\<open>charAt\<close>, with \<open>None\<close> for \<^verbatim>\<open>undefined\<close>).
\<close>

definition charAt :: "string \<Rightarrow> nat \<Rightarrow> char option" where
  "charAt s i = (if i < length s then Some (s ! i) else None)"

definition jsIndex :: "string \<Rightarrow> int \<Rightarrow> string" where
  "jsIndex s k = (if 0 \<le> k \<and> nat k < length s then [s ! nat k] else ''undefined'')"

text \<open>
  Numbers: the program only produces non-negative integers and \<^verbatim>\<open>NaN\<close>; a number is a
  \<^typ>\<open>nat option\<close> with \<open>None\<close> for \<^verbatim>\<open>NaN\<close>. \<open>toStringRadix r n\<close> is
  \<^verbatim>\<open>n.toString(r)\<close> for \<open>r\<close> 2 or 16.
\<close>

definition digitChar :: "nat \<Rightarrow> char" where
  "digitChar d = (''0123456789abcdef'' ! d)"

fun toStringRadix :: "nat \<Rightarrow> nat \<Rightarrow> string" where
  "toStringRadix r n =
     (if r < 2 \<or> n < r then [digitChar n]
      else toStringRadix r (n div r) @ [digitChar (n mod r)])"

declare toStringRadix.simps [simp del]

definition numToString :: "nat \<Rightarrow> nat option \<Rightarrow> string" where
  "numToString r x = (case x of None \<Rightarrow> ''NaN'' | Some n \<Rightarrow> toStringRadix r n)"

text \<open>
  \<^verbatim>\<open>parseInt(s, 2)\<close>: the value of the longest prefix of binary digits, \<^verbatim>\<open>NaN\<close> when that
  prefix is empty. (JavaScript also skips leading white space and reads a sign; the
  strings the program passes here are built from the characters of bit strings, of
  \<^verbatim>\<open>0NaN\<close> and of \<^verbatim>\<open>undefined\<close>, so neither occurs.)
\<close>

definition isBit :: "char \<Rightarrow> bool" where
  "isBit c = (c = CHR ''0'' \<or> c = CHR ''1'')"

definition bitVal :: "char \<Rightarrow> nat" where
  "bitVal c = (if c = CHR ''1'' then 1 else 0)"

definition parseInt2 :: "string \<Rightarrow> nat option" where
  "parseInt2 s =
     (let ds = takeWhile isBit s
      in if ds = [] then None else Some (foldl (\<lambda>a c. 2 * a + bitVal c) 0 ds))"

text \<open>\<^verbatim>\<open>parseInt(hex[i], 16)\<close> on the one-code-unit string \<^verbatim>\<open>hex[i]\<close>.\<close>

definition parseInt16 :: "16 word \<Rightarrow> nat option" where
  "parseInt16 c =
     (let u = unat c
      in if 48 \<le> u \<and> u \<le> 57 then Some (u - 48)
         else if 65 \<le> u \<and> u \<le> 70 then Some (u - 55)
         else if 97 \<le> u \<and> u \<le> 102 then Some (u - 87)
         else None)"

text \<open>\<^verbatim>\<open>s.toUpperCase()\<close> on an ASCII string.\<close>

definition upperChar :: "char \<Rightarrow> char" where
  "upperChar c =
     (case map_of (zip ''abcdefghijklmnopqrstuvwxyz'' ''ABCDEFGHIJKLMNOPQRSTUVWXYZ'') c of
        Some u \<Rightarrow> u
      | None \<Rightarrow> c)"

definition toUpperCase :: "string \<Rightarrow> string" where
  "toUpperCase s = map upperChar s"

section \<open>Constant tables\<close>

text \<open>
  Modelled from the spec: the module \<^verbatim>\<open>./constants\<close> that \<^verbatim>\<open>key.ts\<close> and \<^verbatim>\<open>des.ts\<close>
  import (\<^verbatim>\<open>IP\<close>, \<^verbatim>\<open>IP_INVERSE\<close>, \<^verbatim>\<open>E_SELECTION\<close>, \<^verbatim>\<open>P_TRANSFORM\<close>, \<^verbatim>\<open>PC_1\<close>, \<^verbatim>\<open>PC_2\<close>,
  \<^verbatim>\<open>KEY_SHIFT\<close>, \<^verbatim>\<open>S_BOX\<close>) is not among the sources. The spec fixes the tables as the
  standard DES tables, 1-indexed, and gives the shift schedule literally.
\<close>

definition IP :: "nat list" where
  "IP = [58, 50, 42, 34, 26, 18, 10, 2,
         60, 52, 44, 36, 28, 20, 12, 4,
         62, 54, 46, 38, 30, 22, 14, 6,
         64, 56, 48, 40, 32, 24, 16, 8,
         57, 49, 41, 33, 25, 17, 9, 1,
         59, 51, 43, 35, 27, 19, 11, 3,
         61, 53, 45, 37, 29, 21, 13, 5,
         63, 55, 47, 39, 31, 23, 15, 7]"

definition IP_INVERSE :: "nat list" where
  "IP_INVERSE = [40, 8, 48, 16, 56, 24, 64, 32,
                 39, 7, 47, 15, 55, 23, 63, 31,
                 38, 6, 46, 14, 54, 22, 62, 30,
                 37, 5, 45, 13, 53, 21, 61, 29,
                 36, 4, 44, 12, 52, 20, 60, 28,
                 35, 3, 43, 11, 51, 19, 59, 27,
                 34, 2, 42, 10, 50, 18, 58, 26,
                 33, 1, 41, 9, 49, 17, 57, 25]"

definition E_SELECTION :: "nat list" where
  "E_SELECTION = [32, 1, 2, 3, 4, 5,
                  4, 5, 6, 7, 8, 9,
                  8, 9, 10, 11, 12, 13,
                  12, 13, 14, 15, 16, 17,
                  16, 17, 18, 19, 20, 21,
                  20, 21, 22, 23, 24, 25,
                  24, 25, 26, 27, 28, 29,
                  28, 29, 30, 31, 32, 1]"

definition P_TRANSFORM :: "nat list" where
  "P_TRANSFORM = [16, 7, 20, 21, 29, 12, 28, 17,
                  1, 15, 23, 26, 5, 18, 31, 10,
                  2, 8, 24, 14, 32, 27, 3, 9,
                  19, 13, 30, 6, 22, 11, 4, 25]"

definition PC_1 :: "nat list" where
  "PC_1 = [57, 49, 41, 33, 25, 17, 9,
           1, 58, 50, 42, 34, 26, 18,
           10, 2, 59, 51, 43, 35, 27,
           19, 11, 3, 60, 52, 44, 36,
           63, 55, 47, 39, 31, 23, 15,
           7, 62, 54, 46, 38, 30, 22,
           14, 6, 61, 53, 45, 37, 29,
           21, 13, 5, 28, 20, 12, 4]"

definition PC_2 :: "nat list" where
  "PC_2 = [14, 17, 11, 24, 1, 5,
           3, 28, 15, 6, 21, 10,
           23, 19, 12, 4, 26, 8,
           16, 7, 27, 20, 13, 2,
           41, 52, 31, 37, 47, 55,
           30, 40, 51, 45, 33, 48,
           44, 49, 39, 56, 34, 53,
           46, 42, 50, 36, 29, 32]"

definition KEY_SHIFT :: "nat list" where
  "KEY_SHIFT = [1, 1, 2, 2, 2, 2, 2, 2, 1, 2, 2, 2, 2, 2, 2, 1]"

definition S_BOX :: "nat list list list" where
  "S_BOX =
    [[[14, 4, 13, 1, 2, 15, 11, 8, 3, 10, 6, 12, 5, 9, 0, 7],
      [0, 15, 7, 4, 14, 2, 13, 1, 10, 6, 12, 11, 9, 5, 3, 8],
      [4, 1, 14, 8, 13, 6, 2, 11, 15, 12, 9, 7, 3, 10, 5, 0],
      [15, 12, 8, 2, 4, 9, 1, 7, 5, 11, 3, 14, 10, 0, 6, 13]],
     [[15, 1, 8, 14, 6, 11, 3, 4, 9, 7, 2, 13, 12, 0, 5, 10],
      [3, 13, 4, 7, 15, 2, 8, 14, 12, 0, 1, 10, 6, 9, 11, 5],
      [0, 14, 7, 11, 10, 4, 13, 1, 5, 8, 12, 6, 9, 3, 2, 15],
      [13, 8, 10, 1, 3, 15, 4, 2, 11, 6, 7, 12, 0, 5, 14, 9]],
     [[10, 0, 9, 14, 6, 3, 15, 5, 1, 13, 12, 7, 11, 4, 2, 8],
      [13, 7, 0, 9, 3, 4, 6, 10, 2, 8, 5, 14, 12, 11, 15, 1],
      [13, 6, 4, 9, 8, 15, 3, 0, 11, 1, 2, 12, 5, 10, 14, 7],
      [1, 10, 13, 0, 6, 9, 8, 7, 4, 15, 14, 3, 11, 5, 2, 12]],
     [[7, 13, 14, 3, 0, 6, 9, 10, 1, 2, 8, 5, 11, 12, 4, 15],
      [13, 8, 11, 5, 6, 15, 0, 3, 4, 7, 2, 12, 1, 10, 14, 9],
      [10, 6, 9, 0, 12, 11, 7, 13, 15, 1, 3, 14, 5, 2, 8, 4],
      [3, 15, 0, 6, 10, 1, 13, 8, 9, 4, 5, 11, 12, 7, 2, 14]],
     [[2, 12, 4, 1, 7, 10, 11, 6, 8, 5, 3, 15, 13, 0, 14, 9],
      [14, 11, 2, 12, 4, 7, 13, 1, 5, 0, 15, 10, 3, 9, 8, 6],
      [4, 2, 1, 11, 10, 13, 7, 8, 15, 9, 12, 5, 6, 3, 0, 14],
      [11, 8, 12, 7, 1, 14, 2, 13, 6, 15, 0, 9, 10, 4, 5, 3]],
     [[12, 1, 10, 15, 9, 2, 6, 8, 0, 13, 3, 4, 14, 7, 5, 11],
      [10, 15, 4, 2, 7, 12, 9, 5, 6, 1, 13, 14, 0, 11, 3, 8],
      [9, 14, 15, 5, 2, 8, 12, 3, 7, 0, 4, 10, 1, 13, 11, 6],
      [4, 3, 2, 12, 9, 5, 15, 10, 11, 14, 1, 7, 6, 0, 8, 13]],
     [[4, 11, 2, 14, 15, 0, 8, 13, 3, 12, 9, 7, 5, 10, 6, 1],
      [13, 0, 11, 7, 4, 9, 1, 10, 14, 3, 5, 12, 2, 15, 8, 6],
      [1, 4, 11, 13, 12, 3, 7, 14, 10, 15, 6, 8, 0, 5, 9, 2],
      [6, 11, 13, 8, 1, 4, 10, 7, 9, 5, 0, 15, 14, 2, 3, 12]],
     [[13, 2, 8, 4, 6, 15, 11, 1, 10, 9, 3, 14, 5, 0, 12, 7],
      [1, 15, 13, 8, 10, 3, 7, 4, 12, 5, 6, 11, 0, 14, 9, 2],
      [7, 11, 4, 1, 9, 12, 14, 2, 0, 6, 10, 13, 15, 3, 5, 8],
      [2, 1, 14, 7, 4, 10, 8, 13, 15, 12, 9, 0, 3, 5, 6, 11]]]"

section \<open>Key derivation (\<^verbatim>\<open>utils/key.ts\<close>)\<close>

definition calculateParityBit :: "string \<Rightarrow> string" where
  "calculateParityBit sevenBits =
     (let countOfOnes = length (filter (\<lambda>bit. bit = CHR ''1'') sevenBits)
      in if countOfOnes mod 2 = 0 then ''1'' else ''0'')"

text \<open>The body of the loop of \<^verbatim>\<open>generate64BitKey\<close>, over the characters left to read.\<close>

fun generate64BitKey_loop :: "jsstring \<Rightarrow> string \<Rightarrow> error + string" where
  "generate64BitKey_loop [] binaryKey = Inr binaryKey"
| "generate64BitKey_loop (c # cs) binaryKey =
     (let charCode = unat c
      in if charCode > 127 then Inl (Error ''Only ASCII characters are allowed'')
         else
           (let sevenBits = sliceLast (padStart (toStringRadix 2 charCode) 8 CHR ''0'') 7;
                parityBit = calculateParityBit sevenBits
            in generate64BitKey_loop cs (binaryKey @ sevenBits @ parityBit)))"

definition generate64BitKey :: "jsstring \<Rightarrow> error + string" where
  "generate64BitKey input =
     (if length input \<noteq> 8 then Inl (Error ''Input must be exactly 8 characters long'')
      else generate64BitKey_loop input [])"

definition xorBinaryKeys :: "string \<Rightarrow> string \<Rightarrow> string" where
  "xorBinaryKeys key1 key2 =
     map (\<lambda>i. if charAt key1 i = charAt key2 i then CHR ''0'' else CHR ''1'') [0..<length key1]"

text \<open>The first loop of \<^verbatim>\<open>processKey\<close>: \<^verbatim>\<open>for (i = 0; i < paddedInput.length; i += 8)\<close>.\<close>

function processKey_chunks :: "jsstring \<Rightarrow> nat \<Rightarrow> string list \<Rightarrow> error + string list" where
  "processKey_chunks paddedInput i keys =
     (if i < length paddedInput then
        (case generate64BitKey (slice paddedInput i (i + 8)) of
           Inl e \<Rightarrow> Inl e
         | Inr key \<Rightarrow> processKey_chunks paddedInput (i + 8) (keys @ [key]))
      else Inr keys)"
  by pat_completeness auto
termination
  by (relation "measure (\<lambda>(p, i, keys). length p - i)") auto

declare processKey_chunks.simps [simp del]

text \<open>
  \<^verbatim>\<open>processKey\<close>: the local \<^verbatim>\<open>paddedInput\<close> (filler: the character \<^verbatim>\<open>'0'\<close>, code unit
  0x30), then \<^verbatim>\<open>keys[0]\<close> folded with the other keys; for the empty input there is no
  chunk and the result is \<^verbatim>\<open>undefined\<close> (\<open>None\<close>).
\<close>

definition paddedInput :: "jsstring \<Rightarrow> jsstring" where
  "paddedInput input = padEnd input (ceilTo (length input) 8) (0x30 :: 16 word)"

definition processKey :: "jsstring \<Rightarrow> error + string option" where
  "processKey input =
     (case processKey_chunks (paddedInput input) 0 [] of
        Inl e \<Rightarrow> Inl e
      | Inr keys \<Rightarrow>
          (case keys of
             [] \<Rightarrow> Inr None
           | finalKey # rest \<Rightarrow> Inr (Some (foldl xorBinaryKeys finalKey rest))))"

text \<open>
  \<^verbatim>\<open>rangeBits\<close>: a position outside the table gives \<^verbatim>\<open>undefined - 1 = NaN\<close> as index, and
  an index outside the string gives \<^verbatim>\<open>undefined\<close>; both append the text \<^verbatim>\<open>undefined\<close>.
\<close>

definition rangeBits :: "string \<Rightarrow> nat list \<Rightarrow> nat \<Rightarrow> string" where
  "rangeBits binaryString permutationArray arrayLength =
     concat (map (\<lambda>i. if i < length permutationArray
                       then jsIndex binaryString (int (permutationArray ! i) - 1)
                       else ''undefined'')
                 [0..<arrayLength])"

definition leftShift :: "string \<Rightarrow> nat \<Rightarrow> string" where
  "leftShift binaryString shiftCount = drop shiftCount binaryString @ take shiftCount binaryString"

text \<open>The loop of \<^verbatim>\<open>generateSubKeys\<close> over the round indices still to do; the state is
  \<^verbatim>\<open>(left28bit, right28bit, subKeys)\<close>.\<close>

fun generateSubKeys_loop :: "nat list \<Rightarrow> string \<Rightarrow> string \<Rightarrow> string list \<Rightarrow> string list" where
  "generateSubKeys_loop [] left28bit right28bit subKeys = subKeys"
| "generateSubKeys_loop (i # is) left28bit right28bit subKeys =
     (let left28bit' = leftShift left28bit (KEY_SHIFT ! i);
          right28bit' = leftShift right28bit (KEY_SHIFT ! i);
          combinedKey = left28bit' @ right28bit';
          key48Bit = rangeBits combinedKey PC_2 48
      in generateSubKeys_loop is left28bit' right28bit' (subKeys @ [key48Bit]))"

definition generateSubKeys :: "string \<Rightarrow> string list" where
  "generateSubKeys key56bit =
     generateSubKeys_loop [0..<16] (slice key56bit 0 28) (slice key56bit 28 56) []"

text \<open>\<^verbatim>\<open>outPutKeys\<close>: reading a character of the \<^verbatim>\<open>undefined\<close> key in \<^verbatim>\<open>rangeBits\<close> throws.\<close>

definition outPutKeys :: "jsstring \<Rightarrow> error + string list" where
  "outPutKeys input =
     (case processKey input of
        Inl e \<Rightarrow> Inl e
      | Inr None \<Rightarrow> Inl TypeError
      | Inr (Some final64BitKey) \<Rightarrow>
          (let afterPC1 = rangeBits final64BitKey PC_1 56
           in Inr (generateSubKeys afterPC1)))"

definition getOutPutKeys :: "jsstring \<Rightarrow> error + string list" where
  "getOutPutKeys key = outPutKeys key"

section \<open>Text encoding of the platform\<close>

text \<open>
  \<^verbatim>\<open>new TextEncoder().encode(input)\<close> first reads the string as a sequence of Unicode
  scalar values (a surrogate pair is one value, a surrogate without partner becomes
  U+FFFD) and then writes each value in UTF-8. Bytes are numbers below 256.
\<close>

definition isLead :: "16 word \<Rightarrow> bool" where
  "isLead c = (0xD800 \<le> unat c \<and> unat c \<le> 0xDBFF)"

definition isTrail :: "16 word \<Rightarrow> bool" where
  "isTrail c = (0xDC00 \<le> unat c \<and> unat c \<le> 0xDFFF)"

fun toScalars :: "jsstring \<Rightarrow> nat list" where
  "toScalars [] = []"
| "toScalars [c] = [if isLead c \<or> isTrail c then 0xFFFD else unat c]"
| "toScalars (c # d # rest) =
     (if isLead c \<and> isTrail d
      then (0x10000 + (unat c - 0xD800) * 0x400 + (unat d - 0xDC00)) # toScalars rest
      else (if isLead c \<or> isTrail c then 0xFFFD else unat c) # toScalars (d # rest))"

definition utf8_bytes :: "nat \<Rightarrow> nat list" where
  "utf8_bytes cp =
     (if cp < 0x80 then [cp]
      else if cp < 0x800 then [0xC0 + cp div 0x40, 0x80 + cp mod 0x40]
      else if cp < 0x10000 then
        [0xE0 + cp div 0x1000, 0x80 + cp div 0x40 mod 0x40, 0x80 + cp mod 0x40]
      else
        [0xF0 + cp div 0x40000, 0x80 + cp div 0x1000 mod 0x40,
         0x80 + cp div 0x40 mod 0x40, 0x80 + cp mod 0x40])"

definition TextEncoder_encode :: "jsstring \<Rightarrow> nat list" where
  "TextEncoder_encode input = concat (map utf8_bytes (toScalars input))"

text \<open>
  \<^verbatim>\<open>new TextDecoder().decode(bytes)\<close> runs the UTF-8 decoder of the Encoding standard.
  Its state is the code point under construction, the continuation bytes seen and
  needed, and the bounds for the next continuation byte. For each byte the handler
  continues, emits a code point, or reports an error; after an error on a continuation
  byte the byte is read again in the initial state. (The standard writes the arithmetic
  with masks and shifts: \<open>b mod 0x40\<close> is \<^verbatim>\<open>b & 0x3F\<close> and \<open>cp * 0x40 + _\<close> is
  \<^verbatim>\<open>(cp << 6) | _\<close>.)
\<close>

record utf8_state =
  code_point :: nat
  bytes_seen :: nat
  bytes_needed :: nat
  lower_boundary :: nat
  upper_boundary :: nat

definition utf8_init :: utf8_state where
  "utf8_init = \<lparr>code_point = 0, bytes_seen = 0, bytes_needed = 0,
                lower_boundary = 0x80, upper_boundary = 0xBF\<rparr>"

datatype utf8_result = Continue utf8_state | CodePoint nat | DecodeError | DecodeErrorRestore

definition utf8_handler :: "utf8_state \<Rightarrow> nat \<Rightarrow> utf8_result" where
  "utf8_handler st b =
     (if bytes_needed st = 0 then
        (if b \<le> 0x7F then CodePoint b
         else if 0xC2 \<le> b \<and> b \<le> 0xDF then
           Continue (st\<lparr>bytes_needed := 1, code_point := b mod 0x20\<rparr>)
         else if 0xE0 \<le> b \<and> b \<le> 0xEF then
           Continue (st\<lparr>lower_boundary := (if b = 0xE0 then 0xA0 else lower_boundary st),
                        upper_boundary := (if b = 0xED then 0x9F else upper_boundary st),
                        bytes_needed := 2, code_point := b mod 0x10\<rparr>)
         else if 0xF0 \<le> b \<and> b \<le> 0xF4 then
           Continue (st\<lparr>lower_boundary := (if b = 0xF0 then 0x90 else lower_boundary st),
                        upper_boundary := (if b = 0xF4 then 0x8F else upper_boundary st),
                        bytes_needed := 3, code_point := b mod 0x08\<rparr>)
         else DecodeError)
      else if \<not> (lower_boundary st \<le> b \<and> b \<le> upper_boundary st) then DecodeErrorRestore
      else
        (let cp = code_point st * 0x40 + b mod 0x40;
             seen = bytes_seen st + 1
         in if seen \<noteq> bytes_needed st
            then Continue (st\<lparr>lower_boundary := 0x80, upper_boundary := 0xBF,
                              code_point := cp, bytes_seen := seen\<rparr>)
            else CodePoint cp))"

text \<open>The decoder's output: \<open>Some cp\<close> for a code point, \<open>None\<close> for a decoding error.\<close>

function utf8_decode_from :: "utf8_state \<Rightarrow> nat list \<Rightarrow> nat option list" where
  "utf8_decode_from st [] = (if bytes_needed st \<noteq> 0 then [None] else [])"
| "utf8_decode_from st (b # bs) =
     (case utf8_handler st b of
        Continue st' \<Rightarrow> utf8_decode_from st' bs
      | CodePoint cp \<Rightarrow> Some cp # utf8_decode_from utf8_init bs
      | DecodeError \<Rightarrow> None # utf8_decode_from utf8_init bs
      | DecodeErrorRestore \<Rightarrow> None # utf8_decode_from utf8_init (b # bs))"
  by pat_completeness auto
termination
  by (relation "measure (\<lambda>(st, bs). 2 * length bs + (if bytes_needed st = 0 then 0 else 1))")
     (auto simp: utf8_handler_def utf8_init_def Let_def split: if_splits)

definition utf8_decode :: "nat list \<Rightarrow> nat option list" where
  "utf8_decode bytes = utf8_decode_from utf8_init bytes"

text \<open>A code point as UTF-16 code units.\<close>

definition utf16_units :: "nat \<Rightarrow> jsstring" where
  "utf16_units cp =
     (if cp < 0x10000 then [of_nat cp]
      else [of_nat (0xD800 + (cp - 0x10000) div 0x400),
            of_nat (0xDC00 + (cp - 0x10000) mod 0x400)])"

text \<open>
  \<open>TextDecoder_decode fatal ignoreBOM bytes\<close>: in fatal mode a decoding error throws a
  \<^verbatim>\<open>TypeError\<close>, otherwise it is replaced by U+FFFD; unless \<open>ignoreBOM\<close> is set, a
  leading U+FEFF is dropped from the output. \<^verbatim>\<open>new TextDecoder()\<close> has both flags false.
\<close>

definition TextDecoder_decode :: "bool \<Rightarrow> bool \<Rightarrow> nat list \<Rightarrow> error + jsstring" where
  "TextDecoder_decode fatal ignoreBOM bytes =
     (let items = utf8_decode bytes
      in if fatal \<and> None \<in> set items
         then Inl TypeError
         else
           (let cps = map (\<lambda>x. case x of None \<Rightarrow> 0xFFFD | Some cp \<Rightarrow> cp) items;
                cps' = (case cps of
                          [] \<Rightarrow> []
                        | cp # rest \<Rightarrow> if \<not> ignoreBOM \<and> cp = 0xFEFF then rest else cps)
            in Inr (concat (map utf16_units cps'))))"

text \<open>\<^verbatim>\<open>new Uint8Array(numbers)\<close>: each number modulo 256, \<^verbatim>\<open>NaN\<close> as 0.\<close>

definition toUint8 :: "nat option \<Rightarrow> nat" where
  "toUint8 x = (case x of None \<Rightarrow> 0 | Some n \<Rightarrow> n mod 256)"

section \<open>Block cipher (\<^verbatim>\<open>utils/des.ts\<close>)\<close>

function binaryToHex_loop :: "string \<Rightarrow> nat \<Rightarrow> string \<Rightarrow> string" where
  "binaryToHex_loop binary i hexString =
     (if i < length binary then
        (let fourBits = slice binary i (i + 4);
             hex = numToString 16 (parseInt2 fourBits)
         in binaryToHex_loop binary (i + 4) (hexString @ hex))
      else hexString)"
  by pat_completeness auto
termination
  by (relation "measure (\<lambda>(b, i, h). length b - i)") auto

declare binaryToHex_loop.simps [simp del]

definition binaryToHex :: "string \<Rightarrow> error + string" where
  "binaryToHex binary =
     (if length binary mod 4 \<noteq> 0
      then Inl (Error ''Binary string length must be a multiple of 4.'')
      else Inr (toUpperCase (binaryToHex_loop binary 0 [])))"

definition hexToBinary :: "jsstring \<Rightarrow> string" where
  "hexToBinary hex =
     concat (map (\<lambda>c. padStart (numToString 2 (parseInt16 c)) 4 CHR ''0'') hex)"

definition stringToBinary :: "jsstring \<Rightarrow> string" where
  "stringToBinary input =
     (let utf8Bytes = TextEncoder_encode input;
          binaryString = concat (map (\<lambda>b. padStart (toStringRadix 2 b) 8 CHR ''0'') utf8Bytes)
      in padEnd binaryString (ceilTo (length binaryString) 64) CHR ''0'')"

function binaryToString_loop :: "string \<Rightarrow> nat \<Rightarrow> nat option list \<Rightarrow> nat option list" where
  "binaryToString_loop binary i bytes =
     (if i < length binary then
        (let byte = slice binary i (i + 8);
             charCode = parseInt2 byte
         in binaryToString_loop binary (i + 8) (bytes @ [charCode]))
      else bytes)"
  by pat_completeness auto
termination
  by (relation "measure (\<lambda>(b, i, bs). length b - i)") auto

declare binaryToString_loop.simps [simp del]

definition binaryToString :: "string \<Rightarrow> error + jsstring" where
  "binaryToString binary =
     (let bytes = binaryToString_loop binary 0 []
      in TextDecoder_decode False False (map toUint8 bytes))"

definition splitBinary :: "string \<Rightarrow> error + string \<times> string" where
  "splitBinary input =
     (if length input \<noteq> 64 then Inl (Error ''Input must be a 64-bit binary string'')
      else Inr (slice input 0 32, drop 32 input))"

definition e_transform :: "string \<Rightarrow> error + string" where
  "e_transform input =
     (if length input \<noteq> 32 then Inl (Error ''The input binary string must be 32 bits'')
      else Inr (concat (map (\<lambda>i. jsIndex input (int (E_SELECTION ! i) - 1))
                            [0..<length E_SELECTION])))"

definition xorBinaryStrings :: "string \<Rightarrow> string \<Rightarrow> nat \<Rightarrow> string" where
  "xorBinaryStrings binaryString1 binaryString2 len =
     map (\<lambda>i. if charAt binaryString1 i = charAt binaryString2 i then CHR ''0'' else CHR ''1'')
         [0..<len]"

definition decimalToBinary :: "nat \<Rightarrow> nat \<Rightarrow> string" where
  "decimalToBinary num len = padStart (toStringRadix 2 num) len CHR ''0''"

definition swapStrings :: "string \<times> string \<Rightarrow> string \<times> string" where
  "swapStrings arr = (snd arr, fst arr)"

text \<open>
  The loop of \<^verbatim>\<open>sBoxTransform\<close> over the groups still to do. A \<^verbatim>\<open>NaN\<close> row or column
  makes the table lookup \<^verbatim>\<open>undefined\<close>, and reading from it throws.
\<close>

fun sBoxTransform_loop :: "string \<Rightarrow> nat list \<Rightarrow> string \<Rightarrow> error + string" where
  "sBoxTransform_loop input48bit [] output32bit = Inr output32bit"
| "sBoxTransform_loop input48bit (i # is) output32bit =
     (let sixBits = slice input48bit (i * 6) (i * 6 + 6);
          row = parseInt2 (slice sixBits 0 1 @ drop 5 sixBits);
          column = parseInt2 (slice sixBits 1 5)
      in case (row, column) of
           (Some r, Some c) \<Rightarrow>
             (let sBoxValue = S_BOX ! i ! r ! c
              in sBoxTransform_loop input48bit is (output32bit @ decimalToBinary sBoxValue 4))
         | _ \<Rightarrow> Inl TypeError)"

definition sBoxTransform :: "string \<Rightarrow> error + string" where
  "sBoxTransform input48bit = sBoxTransform_loop input48bit [0..<8] []"

text \<open>
  One pass of the body of the round loop (the same text in \<^verbatim>\<open>createDESCipherText\<close> and
  \<^verbatim>\<open>createDESPlainText\<close>), for round index \<open>i\<close> on \<^verbatim>\<open>splitArray\<close>. A missing
  \<^verbatim>\<open>keyArray[i]\<close> is \<^verbatim>\<open>undefined\<close>, and reading its characters throws.
\<close>

definition feistelRound :: "string list \<Rightarrow> nat \<Rightarrow> string \<times> string \<Rightarrow> error + string \<times> string" where
  "feistelRound keyArray i splitArray =
     (let temp = snd splitArray
      in case e_transform (snd splitArray) of
           Inl err \<Rightarrow> Inl err
         | Inr e \<Rightarrow>
             (if \<not> i < length keyArray then Inl TypeError
              else
                (let xorResult = xorBinaryStrings e (keyArray ! i) 48
                 in case sBoxTransform xorResult of
                      Inl err \<Rightarrow> Inl err
                    | Inr sBoxResult \<Rightarrow>
                        (let p = rangeBits sBoxResult P_TRANSFORM 32;
                             toLeft = xorBinaryStrings (fst splitArray) p 32
                         in Inr (temp, toLeft)))))"

text \<open>The round loop over the indices still to do.\<close>

fun rounds :: "string list \<Rightarrow> nat list \<Rightarrow> string \<times> string \<Rightarrow> error + string \<times> string" where
  "rounds keyArray [] splitArray = Inr splitArray"
| "rounds keyArray (i # is) splitArray =
     (case feistelRound keyArray i splitArray of
        Inl err \<Rightarrow> Inl err
      | Inr splitArray' \<Rightarrow> rounds keyArray is splitArray')"

text \<open>The body of the block loop after the block is cut out, with the round indices
  \<^verbatim>\<open>0, ..., 15\<close> of encryption or \<^verbatim>\<open>15, ..., 0\<close> of decryption.\<close>

definition processBlock :: "string list \<Rightarrow> nat list \<Rightarrow> string \<Rightarrow> error + string" where
  "processBlock keyArray order block =
     (let afterIP = rangeBits block IP 64
      in case splitBinary afterIP of
           Inl err \<Rightarrow> Inl err
         | Inr splitArray \<Rightarrow>
             (case rounds keyArray order splitArray of
                Inl err \<Rightarrow> Inl err
              | Inr splitArray' \<Rightarrow>
                  (let swapped = swapStrings splitArray'
                   in Inr (rangeBits (fst swapped @ snd swapped) IP_INVERSE 64))))"

function createDESCipherText_loop :: "string list \<Rightarrow> string \<Rightarrow> nat \<Rightarrow> string \<Rightarrow> error + string" where
  "createDESCipherText_loop keyArray textBinary blockStart cipherText =
     (if blockStart < length textBinary then
        (let block = padEnd (slice textBinary blockStart (blockStart + 64)) 64 CHR ''0''
         in case processBlock keyArray [0..<16] block of
              Inl err \<Rightarrow> Inl err
            | Inr afterIPInverse \<Rightarrow>
                createDESCipherText_loop keyArray textBinary (blockStart + 64)
                  (cipherText @ afterIPInverse))
      else Inr cipherText)"
  by pat_completeness auto
termination
  by (relation "measure (\<lambda>(k, t, b, c). length t - b)") auto

declare createDESCipherText_loop.simps [simp del]

definition createDESCipherText :: "jsstring \<Rightarrow> jsstring \<Rightarrow> error + string" where
  "createDESCipherText input key =
     (case getOutPutKeys key of
        Inl err \<Rightarrow> Inl err
      | Inr keyArray \<Rightarrow>
          (let textBinary = stringToBinary input
           in case createDESCipherText_loop keyArray textBinary 0 [] of
                Inl err \<Rightarrow> Inl err
              | Inr cipherText \<Rightarrow> binaryToHex cipherText))"

function createDESPlainText_loop :: "string list \<Rightarrow> string \<Rightarrow> nat \<Rightarrow> string \<Rightarrow> error + string" where
  "createDESPlainText_loop keyArray input blockStart binaryText =
     (if blockStart < length input then
        (let block = slice input blockStart (blockStart + 64)
         in case processBlock keyArray (rev [0..<16]) block of
              Inl err \<Rightarrow> Inl err
            | Inr afterIPInverse \<Rightarrow>
                createDESPlainText_loop keyArray input (blockStart + 64)
                  (binaryText @ afterIPInverse))
      else Inr binaryText)"
  by pat_completeness auto
termination
  by (relation "measure (\<lambda>(k, t, b, c). length t - b)") auto

declare createDESPlainText_loop.simps [simp del]

definition createDESPlainText :: "jsstring \<Rightarrow> jsstring \<Rightarrow> error + jsstring" where
  "createDESPlainText input key =
     (case getOutPutKeys key of
        Inl err \<Rightarrow> Inl err
      | Inr keyArray \<Rightarrow>
          (let input' = hexToBinary input
           in case createDESPlainText_loop keyArray input' 0 [] of
                Inl err \<Rightarrow> Inl err
              | Inr binaryText \<Rightarrow> binaryToString binaryText))"

definition getDESCipherText :: "jsstring \<Rightarrow> jsstring \<Rightarrow> error + string" where
  "getDESCipherText input key = createDESCipherText input key"

definition getDESPlainText :: "jsstring \<Rightarrow> jsstring \<Rightarrow> error + jsstring" where
  "getDESPlainText input key = createDESPlainText input key"

section \<open>Derived notions used in the statements and proofs\<close>

definition bits :: "string \<Rightarrow> bool" where
  "bits s = list_all isBit s"

definition bitsValue :: "string \<Rightarrow> nat" where
  "bitsValue s = foldl (\<lambda>a c. 2 * a + bitVal c) 0 s"

text \<open>The k-digit binary numeral of n.\<close>
definition binary :: "nat \<Rightarrow> nat \<Rightarrow> string" where
  "binary k n = padStart (toStringRadix 2 n) k CHR ''0''"

definition asciiStr :: "jsstring \<Rightarrow> bool" where
  "asciiStr s = list_all (\<lambda>c. unat c \<le> 127) s"

definition keyByte :: "16 word \<Rightarrow> string" where
  "keyByte c =
     (let sevenBits = sliceLast (binary 8 (unat c)) 7
      in sevenBits @ calculateParityBit sevenBits)"

definition key64 :: "jsstring \<Rightarrow> string" where
  "key64 chunk = concat (map keyByte chunk)"

primrec chunksN :: "nat \<Rightarrow> nat \<Rightarrow> 'a list \<Rightarrow> 'a list list" where
  "chunksN k 0 s = []"
| "chunksN k (Suc n) s = take k s # chunksN k n (drop k s)"

definition validKey :: "jsstring \<Rightarrow> bool" where
  "validKey K = (K \<noteq> [] \<and> asciiStr K)"

definition permute :: "nat list \<Rightarrow> string \<Rightarrow> string" where
  "permute tbl s = map (\<lambda>t. s ! (t - 1)) tbl"

definition inRange :: "nat \<Rightarrow> nat list \<Rightarrow> bool" where
  "inRange n tbl = list_all (\<lambda>t. 1 \<le> t \<and> t \<le> n) tbl"

definition sboxGroup :: "nat \<Rightarrow> string \<Rightarrow> string" where
  "sboxGroup i sixBits =
     decimalToBinary
       (S_BOX ! i ! bitsValue (take 1 sixBits @ drop 5 sixBits) ! bitsValue (take 4 (drop 1 sixBits)))
       4"

definition sbox :: "string \<Rightarrow> string" where
  "sbox x = concat (map (\<lambda>i. sboxGroup i (slice x (i * 6) (i * 6 + 6))) [0..<8])"

definition feistelF :: "string \<Rightarrow> string \<Rightarrow> string" where
  "feistelF k R = permute P_TRANSFORM (sbox (xorBinaryStrings (permute E_SELECTION R) k 48))"

definition round1 :: "string \<Rightarrow> string \<times> string \<Rightarrow> string \<times> string" where
  "round1 k sp = (snd sp, xorBinaryStrings (fst sp) (feistelF k (snd sp)) 32)"

definition roundsPure :: "string list \<Rightarrow> nat list \<Rightarrow> string \<times> string \<Rightarrow> string \<times> string" where
  "roundsPure ka is sp = foldl (\<lambda>sp i. round1 (ka ! i) sp) sp is"

definition cleanPair :: "string \<times> string \<Rightarrow> bool" where
  "cleanPair sp = (length (fst sp) = 32 \<and> bits (fst sp) \<and> length (snd sp) = 32 \<and> bits (snd sp))"

definition blockPure :: "string list \<Rightarrow> nat list \<Rightarrow> string \<Rightarrow> string" where
  "blockPure ka is block =
     (let p = permute IP block;
          sp = roundsPure ka is (take 32 p, drop 32 p)
      in permute IP_INVERSE (snd sp @ fst sp))"

definition hexChar :: "nat \<Rightarrow> char" where
  "hexChar v = upperChar (digitChar v)"

definition isUpperHex :: "char \<Rightarrow> bool" where
  "isUpperHex c = (c \<in> set ''0123456789ABCDEF'')"

definition hexOf :: "string \<Rightarrow> string" where
  "hexOf b = map (\<lambda>q. hexChar (bitsValue q)) (chunksN 4 (length b div 4) b)"

definition isByte :: "nat \<Rightarrow> bool" where
  "isByte b = (b < 256)"

definition isScalar :: "nat \<Rightarrow> bool" where
  "isScalar cp = (cp < 0x110000 \<and> \<not> (0xD800 \<le> cp \<and> cp \<le> 0xDFFF))"

definition byteBits :: "nat list \<Rightarrow> string" where
  "byteBits bytes = concat (map (binary 8) bytes)"

definition padCount :: "nat \<Rightarrow> nat" where
  "padCount n = (8 - n mod 8) mod 8"

definition cipherBits :: "string list \<Rightarrow> string \<Rightarrow> string" where
  "cipherBits ka tb = concat (map (blockPure ka [0..<16]) (chunksN 64 (length tb div 64) tb))"

definition plainBits :: "string list \<Rightarrow> string \<Rightarrow> string" where
  "plainBits ka cb = concat (map (blockPure ka (rev [0..<16])) (chunksN 64 (length cb div 64) cb))"

text \<open>The key right-padded with the character \<^verbatim>\<open>'0'\<close> (code unit 0x30) to the next multiple
  of 8 characters.\<close>

definition padWithDigitZero :: "jsstring \<Rightarrow> jsstring" where
  "padWithDigitZero K = K @ replicate (padCount (length K)) 0x30"

text \<open>The key right-padded with null characters (code unit 0), as the specification words it.\<close>

definition padWithNull :: "jsstring \<Rightarrow> jsstring" where
  "padWithNull K = K @ replicate (padCount (length K)) 0"

text \<open>
  The key encoding in the words of the specification: per character the 7 low-order
  bits of the code point (the 7-digit binary numeral of the code point modulo 128, most
  significant digit first) followed by the bit that makes the number of set bits odd; per chunk the concatenation of its 8 bytes; chunk values
  combined by bitwise exclusive or.
\<close>

definition lowBits7 :: "nat \<Rightarrow> string" where
  "lowBits7 n = binary 7 (n mod 128)"

definition oddParityBit :: "string \<Rightarrow> char" where
  "oddParityBit s = (if even (count_list s CHR ''1'') then CHR ''1'' else CHR ''0'')"

definition specCharByte :: "16 word \<Rightarrow> string" where
  "specCharByte c = lowBits7 (unat c) @ [oddParityBit (lowBits7 (unat c))]"

definition specChunkValue :: "jsstring \<Rightarrow> string" where
  "specChunkValue chunk = concat (map specCharByte chunk)"

definition xorBits :: "string \<Rightarrow> string \<Rightarrow> string" where
  "xorBits a b = map2 (\<lambda>x y. if x = y then CHR ''0'' else CHR ''1'') a b"








text \<open>The round keys derived from the one-character key \<^verbatim>\<open>A\<close>.\<close>

definition roundKeysA :: "string list" where
  "roundKeysA =
     [''111000000011011001110110000000000000000000000000'',
      ''011000001111011001110110000000000000000010000000'',
      ''111001001101010101110010000000000000000000000001'',
      ''111001101100001101110011000000100000000000000000'',
      ''101011111101001100010011000000000000000100000000'',
      ''001011110001001111011011000000000000000000000000'',
      ''001111110101000011011001010000000000000000000000'',
      ''000111110100100111011000000000000000000000001000'',
      ''000101110110100111011001000000000000010000000000'',
      ''000111110110110110000101000010000000000000000000'',
      ''010110110010110110001101000000000100000000000000'',
      ''010110011010010010101101000000000000000000000000'',
      ''110100011000110010101110100000000000000000000000'',
      ''111100001010101010100110000000000000001000000000'',
      ''101100001011111000100110000100000000000000000000'',
      ''111000001011111001000110000000000000000000000100'']"

text \<open>A string without unpaired surrogates (JavaScript's \<^verbatim>\<open>isWellFormed\<close>).\<close>

fun wellFormed :: "jsstring \<Rightarrow> bool" where
  "wellFormed [] = True"
| "wellFormed [c] = (\<not> isLead c \<and> \<not> isTrail c)"
| "wellFormed (c # d # rest) =
     (if isLead c then isTrail d \<and> wellFormed rest else \<not> isTrail c \<and> wellFormed (d # rest))"

text \<open>The decoder's treatment of a leading byte order mark.\<close>

definition dropBOM :: "nat list \<Rightarrow> nat list" where
  "dropBOM cps = (case cps of [] \<Rightarrow> [] | cp # rest \<Rightarrow> if cp = 0xFEFF then rest else cps)"

text \<open>The bytes that \<^verbatim>\<open>binaryToString\<close> hands to the decoder.\<close>

definition bytesOfBits :: "string \<Rightarrow> nat list" where
  "bytesOfBits b = map toUint8 (binaryToString_loop b 0 [])"

text \<open>\<^verbatim>\<open>getDESPlainText(getDESCipherText(T, K), K)\<close>.\<close>

definition roundTrip :: "jsstring \<Rightarrow> jsstring \<Rightarrow> error + jsstring" where
  "roundTrip T K =
     (case getDESCipherText T K of Inl e \<Rightarrow> Inl e | Inr h \<Rightarrow> getDESPlainText (js h) K)"

text \<open>The bytes recovered by decryption, as handed to the decoder.\<close>

definition recoveredBytes :: "string list \<Rightarrow> jsstring \<Rightarrow> nat list" where
  "recoveredBytes ka H = bytesOfBits (plainBits ka (hexToBinary H))"

text \<open>A byte sequence is valid UTF-8 when the decoder reports no error on it (the
  decoder in fatal mode accepts it).\<close>

definition validUtf8 :: "nat list \<Rightarrow> bool" where
  "validUtf8 bytes = list_all (\<lambda>x. x \<noteq> None) (utf8_decode bytes)"

text \<open>The non-fatal reading of a decoder output: U+FFFD for each error.\<close>

definition replaceErrors :: "nat option list \<Rightarrow> nat list" where
  "replaceErrors items = map (\<lambda>x. case x of None \<Rightarrow> 0xFFFD | Some cp \<Rightarrow> cp) items"

section \<open>Properties of the model\<close>

lemma bits_Nil [simp]: "bits []"
  by (simp add: bits_def)

lemma bits_Cons [simp]: "bits (c # s) = (isBit c \<and> bits s)"
  by (simp add: bits_def)

lemma bits_append [simp]: "bits (a @ b) = (bits a \<and> bits b)"
  by (simp add: bits_def)

lemma bits_replicate0 [simp]: "bits (replicate n CHR ''0'')"
  by (simp add: bits_def isBit_def list_all_iff)

lemma bits_take: "bits s \<Longrightarrow> bits (take n s)"
  by (auto simp: bits_def list_all_iff dest: in_set_takeD)

lemma bits_drop: "bits s \<Longrightarrow> bits (drop n s)"
  by (auto simp: bits_def list_all_iff dest: in_set_dropD)

lemma bits_nth: "bits s \<Longrightarrow> i < length s \<Longrightarrow> isBit (s ! i)"
  by (simp add: bits_def list_all_length)

lemma bits_concat: "list_all bits xs \<Longrightarrow> bits (concat xs)"
  by (induction xs) auto

lemma takeWhile_bits: "bits s \<Longrightarrow> takeWhile isBit s = s"
  by (induction s) auto

lemma parseInt2_bits: "bits s \<Longrightarrow> s \<noteq> [] \<Longrightarrow> parseInt2 s = Some (bitsValue s)"
  by (simp add: parseInt2_def takeWhile_bits bitsValue_def)

lemma bitsValue_snoc: "bitsValue (s @ [c]) = 2 * bitsValue s + bitVal c"
  by (simp add: bitsValue_def)

lemma foldl_zeros: "foldl (\<lambda>a c. 2 * a + bitVal c) 0 (replicate m CHR ''0'') = 0"
  by (induction m) (auto simp: bitVal_def)

lemma bitsValue_zeros_app: "bitsValue (replicate m CHR ''0'' @ s) = bitsValue s"
  by (simp add: bitsValue_def foldl_zeros)

lemma digitChar_bit: "d < 2 \<Longrightarrow> isBit (digitChar d) \<and> bitVal (digitChar d) = d"
proof -
  assume "d < 2"
  then have "d = 0 \<or> d = 1" by arith
  then show ?thesis by (auto simp: digitChar_def isBit_def bitVal_def)
qed

lemma toStringRadix2_bits: "bits (toStringRadix 2 n)"
proof (induction "2::nat" n rule: toStringRadix.induct)
  case (1 n)
  show ?case
  proof (cases "n < 2")
    case True
    then show ?thesis
      by (subst toStringRadix.simps) (simp add: digitChar_bit)
  next
    case False
    then have "bits (toStringRadix 2 (n div 2))" using 1 by simp
    moreover have "isBit (digitChar (n mod 2))" by (simp add: digitChar_bit)
    ultimately show ?thesis using False
      by (subst toStringRadix.simps) simp
  qed
qed

lemma toStringRadix2_value: "bitsValue (toStringRadix 2 n) = n"
proof (induction "2::nat" n rule: toStringRadix.induct)
  case (1 n)
  show ?case
  proof (cases "n < 2")
    case True
    then show ?thesis
      by (subst toStringRadix.simps) (simp add: digitChar_bit bitsValue_def)
  next
    case False
    then have "bitsValue (toStringRadix 2 (n div 2)) = n div 2" using 1 by simp
    then show ?thesis using False
      by (subst toStringRadix.simps) (simp add: bitsValue_snoc digitChar_bit)
  qed
qed

lemma toStringRadix2_nonempty: "toStringRadix 2 n \<noteq> []"
  by (subst toStringRadix.simps) simp

lemma toStringRadix2_length: "n < 2 ^ k \<Longrightarrow> 0 < k \<Longrightarrow> length (toStringRadix 2 n) \<le> k"
proof (induction "2::nat" n arbitrary: k rule: toStringRadix.induct)
  case (1 n)
  show ?case
  proof (cases "n < 2")
    case True
    then show ?thesis using 1(3)
      by (subst toStringRadix.simps) simp
  next
    case False
    obtain j where k: "k = Suc j" using 1(3) by (cases k) auto
    have "j > 0" using False 1(2) k by (cases j) auto
    moreover have "n div 2 < 2 ^ j" using 1(2) k by auto
    ultimately have "length (toStringRadix 2 (n div 2)) \<le> j"
      using 1(1) False by simp
    then show ?thesis using False k
      by (subst toStringRadix.simps) simp
  qed
qed

lemma bits_padStart: "bits s \<Longrightarrow> bits (padStart s k CHR ''0'')"
  by (simp add: padStart_def)

lemma length_padStart: "length (padStart s k c) = max k (length s)"
  by (simp add: padStart_def)

lemma bitsValue_padStart: "bitsValue (padStart s k CHR ''0'') = bitsValue s"
  by (simp add: padStart_def bitsValue_zeros_app)

lemma binary_props:
  assumes "n < 2 ^ k" "0 < k"
  shows "length (binary k n) = k" "bits (binary k n)" "bitsValue (binary k n) = n"
    "parseInt2 (binary k n) = Some n"
proof -
  show l: "length (binary k n) = k"
    using toStringRadix2_length [OF assms] by (simp add: binary_def length_padStart)
  show b: "bits (binary k n)"
    by (simp add: binary_def bits_padStart toStringRadix2_bits)
  show v: "bitsValue (binary k n) = n"
    by (simp add: binary_def bitsValue_padStart toStringRadix2_value)
  have "binary k n \<noteq> []" using l assms(2) by auto
  then show "parseInt2 (binary k n) = Some n"
    using parseInt2_bits [OF b] v by simp
qed

lemma asciiStr_simps [simp]:
  "asciiStr []" "asciiStr (c # cs) = (unat c \<le> 127 \<and> asciiStr cs)"
  "asciiStr (a @ b) = (asciiStr a \<and> asciiStr b)"
  by (simp_all add: asciiStr_def)

lemma asciiStr_take: "asciiStr s \<Longrightarrow> asciiStr (take n s)"
  by (auto simp: asciiStr_def list_all_iff dest: in_set_takeD)

lemma asciiStr_drop: "asciiStr s \<Longrightarrow> asciiStr (drop n s)"
  by (auto simp: asciiStr_def list_all_iff dest: in_set_dropD)

lemma asciiStr_split: "asciiStr s = (asciiStr (take n s) \<and> asciiStr (drop n s))"
  by (metis append_take_drop_id asciiStr_simps(3))

lemma calculateParityBit_cases:
  "calculateParityBit s = ''0'' \<or> calculateParityBit s = ''1''"
  by (simp add: calculateParityBit_def Let_def)

lemma keyByte_props:
  assumes "unat c \<le> 127"
  shows "length (keyByte c) = 8" "bits (keyByte c)"
proof -
  have lt: "unat c < 2 ^ 8" using assms by simp
  have l: "length (binary 8 (unat c)) = 8" and b: "bits (binary 8 (unat c))"
    using binary_props [OF lt] by simp_all
  have l7: "length (sliceLast (binary 8 (unat c)) 7) = 7"
    using l by (simp add: sliceLast_def)
  have b7: "bits (sliceLast (binary 8 (unat c)) 7)"
    using b by (simp add: sliceLast_def bits_drop)
  show "length (keyByte c) = 8"
    using l7 calculateParityBit_cases [of "sliceLast (binary 8 (unat c)) 7"]
    by (auto simp: keyByte_def Let_def)
  show "bits (keyByte c)"
    using b7 calculateParityBit_cases [of "sliceLast (binary 8 (unat c)) 7"]
    by (auto simp: keyByte_def Let_def isBit_def)
qed

lemma key64_props:
  assumes "asciiStr chunk"
  shows "length (key64 chunk) = 8 * length chunk" "bits (key64 chunk)"
  using assms by (induction chunk) (simp_all add: key64_def keyByte_props)

lemma generate64BitKey_loop_ascii:
  "asciiStr cs \<Longrightarrow> generate64BitKey_loop cs acc = Inr (acc @ key64 cs)"
proof (induction cs arbitrary: acc)
  case Nil
  then show ?case by (simp add: key64_def)
next
  case (Cons c cs)
  then have "unat c \<le> 127" "asciiStr cs" by simp_all
  then show ?case
    using Cons.IH [of "acc @ keyByte c"]
    by (simp add: key64_def keyByte_def Let_def binary_def)
qed

lemma generate64BitKey_loop_nonascii:
  "\<not> asciiStr cs \<Longrightarrow>
   generate64BitKey_loop cs acc = Inl (Error ''Only ASCII characters are allowed'')"
proof (induction cs arbitrary: acc)
  case Nil
  then show ?case by simp
next
  case (Cons c cs)
  show ?case
  proof (cases "unat c \<le> 127")
    case True
    then have "\<not> asciiStr cs" using Cons.prems by simp
    then show ?thesis using True Cons.IH by (simp add: Let_def)
  next
    case False
    then show ?thesis by simp
  qed
qed

lemma generate64BitKey_eq:
  "length chunk = 8 \<Longrightarrow>
   generate64BitKey chunk =
     (if asciiStr chunk then Inr (key64 chunk)
      else Inl (Error ''Only ASCII characters are allowed''))"
  by (simp add: generate64BitKey_def generate64BitKey_loop_ascii generate64BitKey_loop_nonascii)

lemma slice_shift: "slice (pre @ s) (length pre + i) (length pre + j) = slice s i j"
  by (simp add: slice_def)

lemma slice_0: "slice s 0 n = take n s"
  by (simp add: slice_def)

lemma processKey_chunks_shift:
  "processKey_chunks (pre @ p) (length pre + i) keys = processKey_chunks p i keys"
proof (induction p i keys rule: processKey_chunks.induct)
  case (1 p i keys)
  have s: "slice (pre @ p) (length pre + i) (length pre + i + 8) = slice p i (i + 8)"
    using slice_shift [of pre p i "i + 8"] by (simp add: add.assoc)
  show ?case
  proof (cases "i < length p")
    case True
    show ?thesis
    proof (cases "generate64BitKey (slice p i (i + 8))")
      case (Inl e)
      then show ?thesis using True s
        by (subst processKey_chunks.simps, subst (2) processKey_chunks.simps) simp
    next
      case (Inr key)
      then have "processKey_chunks (pre @ p) (length pre + (i + 8)) (keys @ [key]) =
          processKey_chunks p (i + 8) (keys @ [key])"
        using 1 True by simp
      then show ?thesis using True s Inr
        by (subst processKey_chunks.simps, subst (2) processKey_chunks.simps)
           (simp add: add.assoc)
    qed
  next
    case False
    then show ?thesis
      by (subst processKey_chunks.simps, subst (2) processKey_chunks.simps) simp
  qed
qed

lemma processKey_chunks_eq:
  "length p = 8 * n \<Longrightarrow>
   processKey_chunks p 0 keys =
     (if asciiStr p then Inr (keys @ map key64 (chunksN 8 n p))
      else Inl (Error ''Only ASCII characters are allowed''))"
proof (induction n arbitrary: p keys)
  case 0
  then show ?case by (subst processKey_chunks.simps) simp
next
  case (Suc n)
  have l8: "length (take 8 p) = 8" using Suc.prems by simp
  have ld: "length (drop 8 p) = 8 * n" using Suc.prems by simp
  have pos: "0 < length p" using Suc.prems by simp
  have shift: "processKey_chunks p 8 ks = processKey_chunks (drop 8 p) 0 ks" for ks
    using processKey_chunks_shift [of "take 8 p" "drop 8 p" 0 ks] l8 by simp
  show ?case
  proof (cases "asciiStr (take 8 p)")
    case True
    have "processKey_chunks p 0 keys = processKey_chunks (drop 8 p) 0 (keys @ [key64 (take 8 p)])"
      using pos True l8 shift
      by (subst processKey_chunks.simps) (simp add: slice_0 generate64BitKey_eq)
    also have "\<dots> = (if asciiStr (drop 8 p)
        then Inr ((keys @ [key64 (take 8 p)]) @ map key64 (chunksN 8 n (drop 8 p)))
        else Inl (Error ''Only ASCII characters are allowed''))"
      using Suc.IH [OF ld] by simp
    finally show ?thesis
      using True asciiStr_split [of p 8] by simp
  next
    case False
    have "processKey_chunks p 0 keys = Inl (Error ''Only ASCII characters are allowed'')"
      using pos False l8
      by (subst processKey_chunks.simps) (simp add: slice_0 generate64BitKey_eq)
    then show ?thesis using False asciiStr_split [of p 8] by simp
  qed
qed

lemma ceilTo_eq:
  assumes "0 < d"
  shows "ceilTo n d = n + (d - n mod d) mod d"
proof (cases "n mod d = 0")
  case True
  have "n = (n div d) * d" using True by (metis add.right_neutral div_mult_mod_eq)
  then obtain k where k: "n = k * d" ..
  have "(k * d + (d - 1)) div d = k"
    using div_mult_self3 [of d k "d - 1"] assms by simp
  then show ?thesis using True k by (simp add: ceilTo_def)
next
  case False
  define q where "q = n div d"
  define r where "r = n mod d"
  have n: "n = q * d + r" by (simp add: q_def r_def)
  have r: "0 < r" "r < d" using False assms by (simp_all add: r_def)
  have "n + (d - 1) = (q + 1) * d + (r - 1)" using n r by (simp add: algebra_simps)
  moreover have "((q + 1) * d + (r - 1)) div d = q + 1"
    using div_mult_self3 [of d "q + 1" "r - 1"] r by simp
  ultimately have "(n + (d - 1)) div d = q + 1" by simp
  then have "ceilTo n d = q * d + d" by (simp add: ceilTo_def algebra_simps)
  moreover have "(d - r) mod d = d - r" using r by simp
  ultimately show ?thesis using n r by (simp add: r_def [symmetric])
qed

lemma ceilTo_8: "ceilTo n 8 = n + (8 - n mod 8) mod 8"
  by (simp add: ceilTo_eq)

lemma ceilTo_64: "ceilTo n 64 = n + (64 - n mod 64) mod 64"
  by (simp add: ceilTo_eq)

lemma ceilTo_dvd: "0 < d \<Longrightarrow> d dvd ceilTo n d"
  by (simp add: ceilTo_def)

lemma paddedInput_eq:
  "paddedInput K = K @ replicate ((8 - length K mod 8) mod 8) 0x30"
  by (simp add: paddedInput_def padEnd_def ceilTo_8)

lemma length_paddedInput: "length (paddedInput K) = 8 * ((length K + 7) div 8)"
  by (simp add: paddedInput_def padEnd_def ceilTo_def)

lemma asciiStr_replicate_0x30: "asciiStr (replicate m (0x30 :: 16 word))"
  by (simp add: asciiStr_def list_all_iff)

lemma asciiStr_paddedInput: "asciiStr (paddedInput K) = asciiStr K"
  by (simp add: paddedInput_eq asciiStr_replicate_0x30)

lemma paddedInput_Nil: "(paddedInput K = []) = (K = [])"
  by (auto simp: paddedInput_eq)

lemma length_xorBinaryKeys: "length (xorBinaryKeys a b) = length a"
  by (simp add: xorBinaryKeys_def)

lemma bits_xorBinaryKeys: "bits (xorBinaryKeys a b)"
  by (simp add: xorBinaryKeys_def bits_def list_all_length isBit_def)

lemma foldl_xorBinaryKeys:
  "length (foldl xorBinaryKeys k rest) = length k"
  "bits k \<Longrightarrow> bits (foldl xorBinaryKeys k rest)"
  by (induction rest arbitrary: k) (simp_all add: length_xorBinaryKeys bits_xorBinaryKeys)

lemma processKey_eq:
  "processKey K =
     (if \<not> asciiStr K then Inl (Error ''Only ASCII characters are allowed'')
      else if K = [] then Inr None
      else Inr (Some (foldl xorBinaryKeys (key64 (take 8 (paddedInput K)))
                  (map key64 (chunksN 8 ((length K + 7) div 8 - 1) (drop 8 (paddedInput K)))))))"
proof (cases "K = []")
  case True
  then show ?thesis
    using processKey_chunks_eq [of "paddedInput K" 0 "[]"]
    by (simp add: processKey_def paddedInput_eq)
next
  case False
  then obtain m where m: "(length K + 7) div 8 = Suc m"
    by (cases "(length K + 7) div 8") (auto simp: div_eq_0_iff)
  have l: "length (paddedInput K) = 8 * Suc m"
    using length_paddedInput [of K] m by simp
  have "processKey_chunks (paddedInput K) 0 [] =
     (if asciiStr K then Inr (key64 (take 8 (paddedInput K)) # map key64 (chunksN 8 m (drop 8 (paddedInput K))))
      else Inl (Error ''Only ASCII characters are allowed''))"
    using processKey_chunks_eq [OF l, of "[]"] by (simp add: asciiStr_paddedInput)
  moreover have "(length K + 7) div 8 - 1 = m" using m by simp
  ultimately show ?thesis
    using False by (simp add: processKey_def)
qed

lemma processKey_valid:
  assumes "validKey K"
  shows "\<exists>k. processKey K = Inr (Some k) \<and> length k = 64 \<and> bits k"
proof -
  have K: "K \<noteq> []" "asciiStr K" using assms by (simp_all add: validKey_def)
  have "8 \<le> length (paddedInput K)"
    using length_paddedInput [of K] K(1) by (cases K) auto
  then have l8: "length (take 8 (paddedInput K)) = 8" by simp
  have a8: "asciiStr (take 8 (paddedInput K))"
    using K(2) by (simp add: asciiStr_take asciiStr_paddedInput)
  have "length (key64 (take 8 (paddedInput K))) = 64" "bits (key64 (take 8 (paddedInput K)))"
    using key64_props [OF a8] l8 by simp_all
  then show ?thesis
    using K by (simp add: processKey_eq foldl_xorBinaryKeys)
qed

lemma length_generateSubKeys_loop:
  "length (generateSubKeys_loop is l r acc) = length acc + length is"
  by (induction "is" arbitrary: l r acc) (simp_all add: Let_def)

lemma length_generateSubKeys: "length (generateSubKeys k) = 16"
  by (simp add: generateSubKeys_def length_generateSubKeys_loop)

lemma getOutPutKeys_valid:
  "validKey K \<Longrightarrow> \<exists>ka. getOutPutKeys K = Inr ka \<and> length ka = 16"
  using processKey_valid [of K]
  by (auto simp: getOutPutKeys_def outPutKeys_def Let_def length_generateSubKeys)

lemma getOutPutKeys_empty:
  "getOutPutKeys [] = Inl TypeError"
  by (simp add: getOutPutKeys_def outPutKeys_def processKey_eq)

lemma getOutPutKeys_nonascii:
  "\<not> asciiStr K \<Longrightarrow> getOutPutKeys K = Inl (Error ''Only ASCII characters are allowed'')"
  by (simp add: getOutPutKeys_def outPutKeys_def processKey_eq)

lemma concat_map_singleton: "concat (map (\<lambda>i. [f i]) xs) = map f xs"
  by (induction xs) auto

lemma map_nth_fun: "map (\<lambda>i. g (xs ! i)) [0..<length xs] = map g xs"
proof -
  have "map (\<lambda>i. g (xs ! i)) [0..<length xs] = map g (map (\<lambda>i. xs ! i) [0..<length xs])"
    by simp
  then show ?thesis by (simp only: map_nth)
qed

lemma rangeBits_permute:
  assumes "inRange (length s) tbl"
  shows "rangeBits s tbl (length tbl) = permute tbl s"
proof -
  have "\<And>i. i < length tbl \<Longrightarrow> jsIndex s (int (tbl ! i) - 1) = [s ! (tbl ! i - 1)]"
  proof -
    fix i assume "i < length tbl"
    then have "1 \<le> tbl ! i \<and> tbl ! i \<le> length s"
      using assms by (simp add: inRange_def list_all_length)
    then show "jsIndex s (int (tbl ! i) - 1) = [s ! (tbl ! i - 1)]"
      by (auto simp: jsIndex_def nat_diff_distrib')
  qed
  then have "rangeBits s tbl (length tbl) =
      concat (map (\<lambda>i. [s ! (tbl ! i - 1)]) [0..<length tbl])"
    unfolding rangeBits_def by (intro arg_cong [where f = concat] map_cong) auto
  also have "\<dots> = map (\<lambda>i. s ! (tbl ! i - 1)) [0..<length tbl]"
    by (rule concat_map_singleton)
  also have "\<dots> = permute tbl s"
    unfolding permute_def by (rule map_nth_fun)
  finally show ?thesis .
qed

lemma length_permute [simp]: "length (permute tbl s) = length tbl"
  by (simp add: permute_def)

lemma bits_permute: "bits s \<Longrightarrow> inRange (length s) tbl \<Longrightarrow> bits (permute tbl s)"
  by (auto simp: permute_def bits_def inRange_def list_all_iff intro!: nth_mem)

lemma table_lengths:
  "length IP = 64" "length IP_INVERSE = 64" "length E_SELECTION = 48"
  "length P_TRANSFORM = 32" "length PC_1 = 56" "length PC_2 = 48"
  by (simp_all add: IP_def IP_INVERSE_def E_SELECTION_def P_TRANSFORM_def PC_1_def PC_2_def)

lemma table_ranges:
  "inRange 64 IP" "inRange 64 IP_INVERSE" "inRange 32 E_SELECTION"
  "inRange 32 P_TRANSFORM" "inRange 64 PC_1" "inRange 56 PC_2"
  by (simp_all add: inRange_def IP_def IP_INVERSE_def E_SELECTION_def P_TRANSFORM_def
        PC_1_def PC_2_def)

lemma length_xorBinaryStrings [simp]: "length (xorBinaryStrings a b n) = n"
  by (simp add: xorBinaryStrings_def)

lemma bits_xorBinaryStrings [simp]: "bits (xorBinaryStrings a b n)"
  by (simp add: xorBinaryStrings_def bits_def list_all_length isBit_def)

lemma xor_char_invol:
  "(a = CHR ''0'' \<or> a = CHR ''1'') \<Longrightarrow> (b = CHR ''0'' \<or> b = CHR ''1'') \<Longrightarrow>
   (if (if a = b then CHR ''0'' else CHR ''1'') = b then CHR ''0'' else CHR ''1'') = a"
  by (elim disjE) simp_all

lemma nth_xorBinaryStrings:
  "i < n \<Longrightarrow>
   xorBinaryStrings a b n ! i = (if charAt a i = charAt b i then CHR ''0'' else CHR ''1'')"
  by (simp add: xorBinaryStrings_def)

lemma charAt_Some: "i < length s \<Longrightarrow> charAt s i = Some (s ! i)"
  by (simp add: charAt_def)

lemma xorBinaryStrings_involution:
  assumes "length L = n" "bits L" "length P = n" "bits P"
  shows "xorBinaryStrings (xorBinaryStrings L P n) P n = L"
proof (rule nth_equalityI)
  show "length (xorBinaryStrings (xorBinaryStrings L P n) P n) = length L"
    using assms by simp
next
  fix i assume "i < length (xorBinaryStrings (xorBinaryStrings L P n) P n)"
  then have i: "i < n" by simp
  have bl: "L ! i = CHR ''0'' \<or> L ! i = CHR ''1''"
    using assms(1,2) i bits_nth [of L i] by (simp add: isBit_def)
  have bp: "P ! i = CHR ''0'' \<or> P ! i = CHR ''1''"
    using assms(3,4) i bits_nth [of P i] by (simp add: isBit_def)
  have cl: "charAt L i = Some (L ! i)" using i assms(1) by (simp add: charAt_Some)
  have cp: "charAt P i = Some (P ! i)" using i assms(3) by (simp add: charAt_Some)
  have cx: "charAt (xorBinaryStrings L P n) i = Some (xorBinaryStrings L P n ! i)"
    using i by (simp add: charAt_Some)
  have "xorBinaryStrings (xorBinaryStrings L P n) P n ! i =
      (if (if L ! i = P ! i then CHR ''0'' else CHR ''1'') = P ! i then CHR ''0'' else CHR ''1'')"
    by (simp only: nth_xorBinaryStrings [OF i] cl cp cx option.inject)
  also have "\<dots> = L ! i"
    by (rule xor_char_invol [OF bl bp])
  finally show "xorBinaryStrings (xorBinaryStrings L P n) P n ! i = L ! i" .
qed

lemma length_slice: "b \<le> length s \<Longrightarrow> length (slice s a b) = b - a"
  unfolding slice_def length_take length_drop by arith

lemma length_concat_const:
  "(\<And>x. x \<in> set xs \<Longrightarrow> length (f x) = k) \<Longrightarrow> length (concat (map f xs)) = k * length xs"
  by (induction xs) simp_all

lemma e_transform_eq:
  "length R = 32 \<Longrightarrow> e_transform R = Inr (permute E_SELECTION R)"
proof -
  assume l: "length R = 32"
  have "concat (map (\<lambda>i. jsIndex R (int (E_SELECTION ! i) - 1)) [0..<length E_SELECTION]) =
      rangeBits R E_SELECTION (length E_SELECTION)"
    unfolding rangeBits_def by (intro arg_cong [where f = concat] map_cong) auto
  also have "\<dots> = permute E_SELECTION R"
    using rangeBits_permute [of R E_SELECTION] table_ranges(3) l by simp
  finally show ?thesis using l by (simp add: e_transform_def)
qed

lemma sBoxTransform_loop_eq:
  assumes "bits x" "list_all (\<lambda>i. i * 6 + 6 \<le> length x) is"
  shows "sBoxTransform_loop x is acc =
     Inr (acc @ concat (map (\<lambda>i. sboxGroup i (slice x (i * 6) (i * 6 + 6))) is))"
  using assms(2)
proof (induction "is" arbitrary: acc)
  case Nil
  then show ?case by simp
next
  case (Cons i "is")
  define six where "six = slice x (i * 6) (i * 6 + 6)"
  have "i * 6 + 6 \<le> length x" using Cons.prems by simp
  then have l6: "length six = 6" by (simp add: six_def length_slice)
  have b6: "bits six" using assms(1) by (simp add: six_def slice_def bits_take bits_drop)
  have r: "parseInt2 (slice six 0 1 @ drop 5 six) = Some (bitsValue (take 1 six @ drop 5 six))"
    using parseInt2_bits [of "take 1 six @ drop 5 six"] b6 l6
    by (simp add: slice_0 bits_take bits_drop)
  have c: "parseInt2 (slice six 1 5) = Some (bitsValue (take 4 (drop 1 six)))"
    using parseInt2_bits [of "take 4 (drop 1 six)"] b6 l6
    by (simp add: slice_def bits_take bits_drop)
  have rest: "list_all (\<lambda>i. i * 6 + 6 \<le> length x) is" using Cons.prems by simp
  show ?case
    using Cons.IH [OF rest, of "acc @ sboxGroup i six"] r c
    by (simp add: six_def [symmetric] Let_def sboxGroup_def)
qed

lemma sBoxTransform_eq:
  "bits x \<Longrightarrow> length x = 48 \<Longrightarrow> sBoxTransform x = Inr (sbox x)"
  using sBoxTransform_loop_eq [of x "[0..<8]" "[]"]
  by (simp add: sBoxTransform_def sbox_def list_all_iff)

lemma bitsValue_bound: "bitsValue s < 2 ^ length s"
proof (induction s rule: rev_induct)
  case Nil
  then show ?case by (simp add: bitsValue_def)
next
  case (snoc c s)
  have "bitVal c \<le> 1" by (simp add: bitVal_def)
  then show ?case using snoc by (simp add: bitsValue_snoc)
qed

lemma S_BOX_shape:
  "length S_BOX = 8"
  "list_all (\<lambda>b. length b = 4 \<and> list_all (\<lambda>row. length row = 16 \<and> list_all (\<lambda>v. v < 16) row) b) S_BOX"
  by (simp_all add: S_BOX_def)

lemma S_BOX_bound:
  assumes "i < 8" "r < 4" "c < 16"
  shows "S_BOX ! i ! r ! c < 16"
proof -
  have b: "length (S_BOX ! i) = 4 \<and>
      list_all (\<lambda>row. length row = 16 \<and> list_all (\<lambda>v. v < 16) row) (S_BOX ! i)"
    using S_BOX_shape assms(1) by (simp add: list_all_length)
  then have "length (S_BOX ! i ! r) = 16 \<and> list_all (\<lambda>v. v < 16) (S_BOX ! i ! r)"
    using assms(2) by (simp add: list_all_length)
  then show ?thesis using assms(3) by (simp add: list_all_length)
qed

lemma sboxGroup_props:
  assumes "i < 8" "length six = 6"
  shows "length (sboxGroup i six) = 4" "bits (sboxGroup i six)"
proof -
  have r: "bitsValue (take 1 six @ drop 5 six) < 4"
    using bitsValue_bound [of "take 1 six @ drop 5 six"] assms(2) by simp
  have c: "bitsValue (take 4 (drop 1 six)) < 16"
    using bitsValue_bound [of "take 4 (drop 1 six)"] assms(2) by simp
  have v: "S_BOX ! i ! bitsValue (take 1 six @ drop 5 six) ! bitsValue (take 4 (drop 1 six)) < 2 ^ 4"
    using S_BOX_bound [OF assms(1) r c] by simp
  show "length (sboxGroup i six) = 4" "bits (sboxGroup i six)"
    using binary_props(1,2) [OF v] by (simp_all add: sboxGroup_def decimalToBinary_def binary_def)
qed

lemma sbox_props:
  assumes "length x = 48"
  shows "length (sbox x) = 32" "bits (sbox x)"
proof -
  have g: "\<And>i. i < 8 \<Longrightarrow> length (sboxGroup i (slice x (i * 6) (i * 6 + 6))) = 4
      \<and> bits (sboxGroup i (slice x (i * 6) (i * 6 + 6)))"
  proof -
    fix i :: nat assume i: "i < 8"
    then have "length (slice x (i * 6) (i * 6 + 6)) = 6" using assms by (simp add: length_slice)
    then show "length (sboxGroup i (slice x (i * 6) (i * 6 + 6))) = 4
      \<and> bits (sboxGroup i (slice x (i * 6) (i * 6 + 6)))"
      using sboxGroup_props [OF i] by simp
  qed
  show "length (sbox x) = 32"
    unfolding sbox_def
    using length_concat_const [of "[0..<8]" "\<lambda>i. sboxGroup i (slice x (i * 6) (i * 6 + 6))" 4]
    by (simp add: g)
  show "bits (sbox x)"
    unfolding sbox_def by (rule bits_concat) (simp add: list_all_iff g)
qed

lemma feistelF_props: "length (feistelF k R) = 32" "bits (feistelF k R)"
proof -
  have l: "length (xorBinaryStrings (permute E_SELECTION R) k 48) = 48" by simp
  show "length (feistelF k R) = 32" by (simp add: feistelF_def table_lengths)
  have "inRange (length (sbox (xorBinaryStrings (permute E_SELECTION R) k 48))) P_TRANSFORM"
    using sbox_props(1) [OF l] table_ranges(4) by simp
  then show "bits (feistelF k R)"
    unfolding feistelF_def using sbox_props(2) [OF l] by (rule bits_permute [rotated])
qed

lemma feistelRound_eq:
  assumes "length (snd sp) = 32" "i < length ka"
  shows "feistelRound ka i sp = Inr (round1 (ka ! i) sp)"
proof -
  define x where "x = xorBinaryStrings (permute E_SELECTION (snd sp)) (ka ! i) 48"
  have sx: "sBoxTransform x = Inr (sbox x)"
    by (rule sBoxTransform_eq) (simp_all add: x_def)
  have "length (sbox x) = 32" by (rule sbox_props) (simp add: x_def)
  then have "rangeBits (sbox x) P_TRANSFORM (length P_TRANSFORM) = permute P_TRANSFORM (sbox x)"
    using rangeBits_permute [of "sbox x" P_TRANSFORM] table_ranges(4) by simp
  then have p: "rangeBits (sbox x) P_TRANSFORM 32 = permute P_TRANSFORM (sbox x)"
    by (simp add: table_lengths)
  show ?thesis
    using assms sx p
    by (simp add: feistelRound_def e_transform_eq x_def [symmetric] round1_def feistelF_def)
qed

lemma length_snd_round1 [simp]: "length (snd (round1 k sp)) = 32"
  by (simp add: round1_def)

lemma length_fst_round1 [simp]: "length (fst (round1 k sp)) = length (snd sp)"
  by (simp add: round1_def)

lemma rounds_eq:
  "length (snd sp) = 32 \<Longrightarrow> list_all (\<lambda>i. i < length ka) is \<Longrightarrow>
   rounds ka is sp = Inr (roundsPure ka is sp)"
proof (induction "is" arbitrary: sp)
  case Nil
  then show ?case by (simp add: roundsPure_def)
next
  case (Cons i "is")
  have "feistelRound ka i sp = Inr (round1 (ka ! i) sp)"
    using Cons.prems by (simp add: feistelRound_eq)
  moreover have "rounds ka is (round1 (ka ! i) sp) = Inr (roundsPure ka is (round1 (ka ! i) sp))"
    using Cons.prems by (intro Cons.IH) simp_all
  ultimately show ?case by (simp add: roundsPure_def)
qed

lemma cleanPair_round1: "cleanPair sp \<Longrightarrow> cleanPair (round1 k sp)"
  by (simp add: cleanPair_def round1_def)

lemma cleanPair_roundsPure: "cleanPair sp \<Longrightarrow> cleanPair (roundsPure ka is sp)"
  by (induction "is" arbitrary: sp) (simp_all add: roundsPure_def cleanPair_round1)

lemma round1_swap_round1:
  assumes "cleanPair sp"
  shows "round1 k (prod.swap (round1 k sp)) = prod.swap sp"
proof -
  have "xorBinaryStrings (xorBinaryStrings (fst sp) (feistelF k (snd sp)) 32) (feistelF k (snd sp)) 32
      = fst sp"
    using assms by (intro xorBinaryStrings_involution) (simp_all add: cleanPair_def feistelF_props)
  then show ?thesis by (cases sp) (simp add: round1_def)
qed

lemma roundsPure_append:
  "roundsPure ka (xs @ ys) sp = roundsPure ka ys (roundsPure ka xs sp)"
  by (simp add: roundsPure_def)

lemma roundsPure_inverse:
  "cleanPair sp \<Longrightarrow>
   roundsPure ka (rev is) (prod.swap (roundsPure ka is sp)) = prod.swap sp"
proof (induction "is" arbitrary: sp)
  case Nil
  then show ?case by (simp add: roundsPure_def)
next
  case (Cons i "is")
  have c: "cleanPair (round1 (ka ! i) sp)" using Cons.prems by (rule cleanPair_round1)
  have "roundsPure ka (i # is) sp = roundsPure ka is (round1 (ka ! i) sp)"
    by (simp add: roundsPure_def)
  then have "roundsPure ka (rev (i # is)) (prod.swap (roundsPure ka (i # is) sp)) =
      roundsPure ka [i] (roundsPure ka (rev is) (prod.swap (roundsPure ka is (round1 (ka ! i) sp))))"
    by (simp add: roundsPure_append)
  also have "\<dots> = roundsPure ka [i] (prod.swap (round1 (ka ! i) sp))"
    using Cons.IH [OF c] by simp
  also have "\<dots> = prod.swap sp"
    using round1_swap_round1 [OF Cons.prems] by (simp add: roundsPure_def)
  finally show ?case .
qed

lemma rangeBits_IP: "length s = 64 \<Longrightarrow> rangeBits s IP 64 = permute IP s"
  using rangeBits_permute [of s IP] table_ranges(1) by (simp add: table_lengths)

lemma rangeBits_IP_INVERSE: "length s = 64 \<Longrightarrow> rangeBits s IP_INVERSE 64 = permute IP_INVERSE s"
  using rangeBits_permute [of s IP_INVERSE] table_ranges(2) by (simp add: table_lengths)

lemma length_snd_roundsPure:
  "length (snd sp) = 32 \<Longrightarrow> length (snd (roundsPure ka is sp)) = 32"
  by (induction "is" arbitrary: sp) (simp_all add: roundsPure_def)

lemma length_fst_roundsPure:
  "length (fst sp) = 32 \<Longrightarrow> length (snd sp) = 32 \<Longrightarrow> length (fst (roundsPure ka is sp)) = 32"
  by (induction "is" arbitrary: sp) (simp_all add: roundsPure_def)

lemma processBlock_eq:
  assumes "length block = 64" "list_all (\<lambda>i. i < length ka) is"
  shows "processBlock ka is block = Inr (blockPure ka is block)"
proof -
  define p where "p = permute IP block"
  define sp where "sp = (take 32 p, drop 32 p)"
  have lp: "length p = 64" by (simp add: p_def table_lengths)
  have ls: "length (fst sp) = 32" "length (snd sp) = 32" using lp by (simp_all add: sp_def)
  have r: "rounds ka is sp = Inr (roundsPure ka is sp)"
    using ls(2) assms(2) by (rule rounds_eq)
  have "length (snd (roundsPure ka is sp) @ fst (roundsPure ka is sp)) = 64"
    using length_snd_roundsPure [OF ls(2)] length_fst_roundsPure [OF ls] by simp
  then have f: "rangeBits (snd (roundsPure ka is sp) @ fst (roundsPure ka is sp)) IP_INVERSE 64 =
      permute IP_INVERSE (snd (roundsPure ka is sp) @ fst (roundsPure ka is sp))"
    by (rule rangeBits_IP_INVERSE)
  have "splitBinary p = Inr sp" using lp by (simp add: splitBinary_def sp_def slice_0)
  then show ?thesis
    using assms(1) r f
    by (simp add: processBlock_def rangeBits_IP p_def [symmetric] swapStrings_def blockPure_def
          Let_def sp_def [symmetric])
qed

lemma IP_inverse_tables:
  "list_all (\<lambda>i. IP ! (IP_INVERSE ! i - 1) - 1 = i) [0..<64]"
  "list_all (\<lambda>i. IP_INVERSE ! (IP ! i - 1) - 1 = i) [0..<64]"
  by code_simp+

lemma nth_permute: "i < length tbl \<Longrightarrow> permute tbl s ! i = s ! (tbl ! i - 1)"
  by (simp add: permute_def)

lemma permute_IP_INVERSE_IP:
  assumes "length s = 64"
  shows "permute IP_INVERSE (permute IP s) = s"
proof (rule nth_equalityI)
  show "length (permute IP_INVERSE (permute IP s)) = length s"
    using assms by (simp add: table_lengths)
next
  fix i assume "i < length (permute IP_INVERSE (permute IP s))"
  then have i: "i < 64" by (simp add: table_lengths)
  have "1 \<le> IP_INVERSE ! i \<and> IP_INVERSE ! i \<le> 64"
    using table_ranges(2) i by (simp add: inRange_def list_all_length table_lengths)
  then have j: "IP_INVERSE ! i - 1 < length IP" unfolding table_lengths by arith
  have e: "IP ! (IP_INVERSE ! i - 1) - 1 = i"
    using IP_inverse_tables(1) i by (simp add: list_all_iff)
  have "permute IP_INVERSE (permute IP s) ! i = permute IP s ! (IP_INVERSE ! i - 1)"
    using i by (simp add: nth_permute table_lengths)
  also have "\<dots> = s ! (IP ! (IP_INVERSE ! i - 1) - 1)"
    using j by (rule nth_permute)
  finally show "permute IP_INVERSE (permute IP s) ! i = s ! i" using e by simp
qed

lemma permute_IP_IP_INVERSE:
  assumes "length s = 64"
  shows "permute IP (permute IP_INVERSE s) = s"
proof (rule nth_equalityI)
  show "length (permute IP (permute IP_INVERSE s)) = length s"
    using assms by (simp add: table_lengths)
next
  fix i assume "i < length (permute IP (permute IP_INVERSE s))"
  then have i: "i < 64" by (simp add: table_lengths)
  have "1 \<le> IP ! i \<and> IP ! i \<le> 64"
    using table_ranges(1) i by (simp add: inRange_def list_all_length table_lengths)
  then have j: "IP ! i - 1 < length IP_INVERSE" unfolding table_lengths by arith
  have e: "IP_INVERSE ! (IP ! i - 1) - 1 = i"
    using IP_inverse_tables(2) i by (simp add: list_all_iff)
  have "permute IP (permute IP_INVERSE s) ! i = permute IP_INVERSE s ! (IP ! i - 1)"
    using i by (simp add: nth_permute table_lengths)
  also have "\<dots> = s ! (IP_INVERSE ! (IP ! i - 1) - 1)"
    using j by (rule nth_permute)
  finally show "permute IP (permute IP_INVERSE s) ! i = s ! i" using e by simp
qed

lemma blockPure_props:
  assumes "length b = 64"
  shows "length (blockPure ka is b) = 64"
    and "bits b \<Longrightarrow> bits (blockPure ka is b)"
proof -
  define p where "p = permute IP b"
  define sp where "sp = (take 32 p, drop 32 p)"
  define q where "q = roundsPure ka is sp"
  show "length (blockPure ka is b) = 64" by (simp add: blockPure_def Let_def table_lengths)
  assume b: "bits b"
  have "bits p" unfolding p_def using b table_ranges(1) assms by (intro bits_permute) simp_all
  moreover have "length p = 64" by (simp add: p_def table_lengths)
  ultimately have "cleanPair sp" by (simp add: cleanPair_def sp_def bits_take bits_drop)
  then have cq: "cleanPair q" unfolding q_def by (rule cleanPair_roundsPure)
  then have "bits (snd q @ fst q)" "length (snd q @ fst q) = 64" by (simp_all add: cleanPair_def)
  then have "bits (permute IP_INVERSE (snd q @ fst q))"
    using table_ranges(2) by (intro bits_permute) simp_all
  then show "bits (blockPure ka is b)"
    by (simp add: blockPure_def Let_def p_def sp_def q_def)
qed

lemma blockPure_inverse:
  assumes "length b = 64" "bits b"
  shows "blockPure ka (rev is) (blockPure ka is b) = b"
proof -
  define p where "p = permute IP b"
  define sp where "sp = (take 32 p, drop 32 p)"
  define q where "q = roundsPure ka is sp"
  have c: "blockPure ka is b = permute IP_INVERSE (snd q @ fst q)"
    by (simp add: blockPure_def Let_def p_def sp_def q_def)
  have "bits p" unfolding p_def using assms table_ranges(1) by (intro bits_permute) simp_all
  moreover have lp: "length p = 64" by (simp add: p_def table_lengths)
  ultimately have cs: "cleanPair sp" by (simp add: cleanPair_def sp_def bits_take bits_drop)
  then have cq: "cleanPair q" unfolding q_def by (rule cleanPair_roundsPure)
  then have lq: "length (snd q @ fst q) = 64" "length (snd q) = 32" by (simp_all add: cleanPair_def)
  have "permute IP (blockPure ka is b) = snd q @ fst q"
    unfolding c using lq(1) by (rule permute_IP_IP_INVERSE)
  then have "(take 32 (permute IP (blockPure ka is b)), drop 32 (permute IP (blockPure ka is b)))
      = prod.swap q"
    using lq(2) by (cases q) simp
  then have "blockPure ka (rev is) (blockPure ka is b) =
      permute IP_INVERSE (snd (roundsPure ka (rev is) (prod.swap q))
        @ fst (roundsPure ka (rev is) (prod.swap q)))"
    by (simp add: blockPure_def [of ka "rev is"] Let_def)
  also have "roundsPure ka (rev is) (prod.swap q) = prod.swap sp"
    unfolding q_def using cs by (rule roundsPure_inverse)
  also have "permute IP_INVERSE (snd (prod.swap sp) @ fst (prod.swap sp)) = permute IP_INVERSE p"
    by (simp add: sp_def)
  also have "\<dots> = b" unfolding p_def using assms(1) by (rule permute_IP_INVERSE_IP)
  finally show ?thesis .
qed

lemma createDESCipherText_loop_shift:
  "createDESCipherText_loop ka (pre @ tb) (length pre + i) acc = createDESCipherText_loop ka tb i acc"
proof (induction ka tb i acc rule: createDESCipherText_loop.induct)
  case (1 ka tb i acc)
  have s: "slice (pre @ tb) (length pre + i) (length pre + i + 64) = slice tb i (i + 64)"
    using slice_shift [of pre tb i "i + 64"] by (simp add: add.assoc)
  show ?case
  proof (cases "i < length tb")
    case True
    define block where "block = padEnd (slice tb i (i + 64)) 64 CHR ''0''"
    show ?thesis
    proof (cases "processBlock ka [0..<16] block")
      case (Inl e)
      then show ?thesis using True s
        by (subst createDESCipherText_loop.simps, subst (2) createDESCipherText_loop.simps)
           (simp add: block_def)
    next
      case (Inr c)
      then have "createDESCipherText_loop ka (pre @ tb) (length pre + (i + 64)) (acc @ c) =
          createDESCipherText_loop ka tb (i + 64) (acc @ c)"
        using 1 True by (simp add: block_def)
      then show ?thesis using True s Inr
        by (subst createDESCipherText_loop.simps, subst (2) createDESCipherText_loop.simps)
           (simp add: add.assoc block_def)
    qed
  next
    case False
    then show ?thesis
      by (subst createDESCipherText_loop.simps, subst (2) createDESCipherText_loop.simps) simp
  qed
qed

lemma createDESPlainText_loop_shift:
  "createDESPlainText_loop ka (pre @ tb) (length pre + i) acc = createDESPlainText_loop ka tb i acc"
proof (induction ka tb i acc rule: createDESPlainText_loop.induct)
  case (1 ka tb i acc)
  have s: "slice (pre @ tb) (length pre + i) (length pre + i + 64) = slice tb i (i + 64)"
    using slice_shift [of pre tb i "i + 64"] by (simp add: add.assoc)
  show ?case
  proof (cases "i < length tb")
    case True
    define block where "block = slice tb i (i + 64)"
    show ?thesis
    proof (cases "processBlock ka (rev [0..<16]) block")
      case (Inl e)
      then show ?thesis using True s
        by (subst createDESPlainText_loop.simps, subst (2) createDESPlainText_loop.simps)
           (simp add: block_def)
    next
      case (Inr c)
      then have "createDESPlainText_loop ka (pre @ tb) (length pre + (i + 64)) (acc @ c) =
          createDESPlainText_loop ka tb (i + 64) (acc @ c)"
        using 1 True by (simp add: block_def)
      then show ?thesis using True s Inr
        by (subst createDESPlainText_loop.simps, subst (2) createDESPlainText_loop.simps)
           (simp add: add.assoc block_def)
    qed
  next
    case False
    then show ?thesis
      by (subst createDESPlainText_loop.simps, subst (2) createDESPlainText_loop.simps) simp
  qed
qed

lemma indices16: "length ka = 16 \<Longrightarrow> list_all (\<lambda>i. i < length ka) [0..<16]"
  "length ka = 16 \<Longrightarrow> list_all (\<lambda>i. i < length ka) (rev [0..<16])"
  by (simp_all add: list_all_iff)

lemma createDESCipherText_loop_eq:
  "length tb = 64 * n \<Longrightarrow> length ka = 16 \<Longrightarrow>
   createDESCipherText_loop ka tb 0 acc =
     Inr (acc @ concat (map (blockPure ka [0..<16]) (chunksN 64 n tb)))"
proof (induction n arbitrary: tb acc)
  case 0
  then show ?case by (subst createDESCipherText_loop.simps) simp
next
  case (Suc n)
  have l: "length (take 64 tb) = 64" using Suc.prems by simp
  have ld: "length (drop 64 tb) = 64 * n" using Suc.prems by simp
  have pos: "0 < length tb" using Suc.prems by simp
  have pb: "processBlock ka [0..<16] (take 64 tb) = Inr (blockPure ka [0..<16] (take 64 tb))"
    using l indices16(1) [OF Suc.prems(2)] by (rule processBlock_eq)
  have shift: "createDESCipherText_loop ka tb 64 a = createDESCipherText_loop ka (drop 64 tb) 0 a" for a
    using createDESCipherText_loop_shift [of ka "take 64 tb" "drop 64 tb" 0 a] l by simp
  have "createDESCipherText_loop ka tb 0 acc =
      createDESCipherText_loop ka (drop 64 tb) 0 (acc @ blockPure ka [0..<16] (take 64 tb))"
    using pos l pb shift
    by (subst createDESCipherText_loop.simps) (simp add: slice_0 padEnd_def)
  then show ?case using Suc.IH [OF ld Suc.prems(2)] by simp
qed

lemma createDESPlainText_loop_eq:
  "length tb = 64 * n \<Longrightarrow> length ka = 16 \<Longrightarrow>
   createDESPlainText_loop ka tb 0 acc =
     Inr (acc @ concat (map (blockPure ka (rev [0..<16])) (chunksN 64 n tb)))"
proof (induction n arbitrary: tb acc)
  case 0
  then show ?case by (subst createDESPlainText_loop.simps) simp
next
  case (Suc n)
  have l: "length (take 64 tb) = 64" using Suc.prems by simp
  have ld: "length (drop 64 tb) = 64 * n" using Suc.prems by simp
  have pos: "0 < length tb" using Suc.prems by simp
  have pb: "processBlock ka (rev [0..<16]) (take 64 tb) = Inr (blockPure ka (rev [0..<16]) (take 64 tb))"
    using l indices16(2) [OF Suc.prems(2)] by (rule processBlock_eq)
  have shift: "createDESPlainText_loop ka tb 64 a = createDESPlainText_loop ka (drop 64 tb) 0 a" for a
    using createDESPlainText_loop_shift [of ka "take 64 tb" "drop 64 tb" 0 a] l by simp
  have "createDESPlainText_loop ka tb 0 acc =
      createDESPlainText_loop ka (drop 64 tb) 0 (acc @ blockPure ka (rev [0..<16]) (take 64 tb))"
    using pos l pb shift
    by (subst createDESPlainText_loop.simps) (simp add: slice_0)
  then show ?case using Suc.IH [OF ld Suc.prems(2)] by simp
qed

lemma chunksN_length:
  "length s = k * n \<Longrightarrow> c \<in> set (chunksN k n s) \<Longrightarrow> length c = k"
proof (induction n arbitrary: s)
  case 0
  then show ?case by simp
next
  case (Suc n)
  have "length (drop k s) = k * n" using Suc.prems(1) by simp
  moreover have "length (take k s) = k" using Suc.prems(1) by simp
  ultimately show ?case using Suc.IH [of "drop k s"] Suc.prems(2) by auto
qed

lemma chunksN_bits:
  "bits s \<Longrightarrow> c \<in> set (chunksN k n s) \<Longrightarrow> bits c"
proof (induction n arbitrary: s)
  case 0
  then show ?case by simp
next
  case (Suc n)
  then show ?case using bits_take [of s k] bits_drop [of s k] by auto
qed

lemma concat_chunksN: "length s = k * n \<Longrightarrow> concat (chunksN k n s) = s"
proof (induction n arbitrary: s)
  case 0
  then show ?case by simp
next
  case (Suc n)
  have "length (drop k s) = k * n" using Suc.prems(1) by simp
  then show ?case using Suc.IH [of "drop k s"] by simp
qed

lemma chunksN_concat_map:
  "(\<And>x. x \<in> set xs \<Longrightarrow> length (f x) = k) \<Longrightarrow>
   chunksN k (length xs) (concat (map f xs)) = map f xs"
  by (induction xs) simp_all

lemma length_chunksN [simp]: "length (chunksN k n s) = n"
  by (induction n arbitrary: s) simp_all

lemma less16_cases:
  "(v::nat) < 16 \<Longrightarrow>
   v = 0 \<or> v = 1 \<or> v = 2 \<or> v = 3 \<or> v = 4 \<or> v = 5 \<or> v = 6 \<or> v = 7 \<or>
   v = 8 \<or> v = 9 \<or> v = 10 \<or> v = 11 \<or> v = 12 \<or> v = 13 \<or> v = 14 \<or> v = 15"
  by arith

lemma hexChar_upper: "v < 16 \<Longrightarrow> isUpperHex (hexChar v)"
  by (drule less16_cases) (elim disjE; simp add: hexChar_def upperChar_def digitChar_def isUpperHex_def)

lemma parseInt16_hexChar:
  "v < 16 \<Longrightarrow> parseInt16 (of_nat (of_char (hexChar v))) = Some v"
  by (drule less16_cases) (elim disjE; simp add: hexChar_def upperChar_def digitChar_def parseInt16_def)

lemma toStringRadix16_digit: "v < 16 \<Longrightarrow> toStringRadix 16 v = [digitChar v]"
  by (subst toStringRadix.simps) simp

lemma binaryToHex_loop_shift:
  "binaryToHex_loop (pre @ b) (length pre + i) acc = binaryToHex_loop b i acc"
proof (induction b i acc rule: binaryToHex_loop.induct)
  case (1 b i acc)
  have s: "slice (pre @ b) (length pre + i) (length pre + i + 4) = slice b i (i + 4)"
    using slice_shift [of pre b i "i + 4"] by (simp add: add.assoc)
  show ?case
  proof (cases "i < length b")
    case True
    then have "binaryToHex_loop (pre @ b) (length pre + (i + 4))
          (acc @ numToString 16 (parseInt2 (slice b i (i + 4)))) =
        binaryToHex_loop b (i + 4) (acc @ numToString 16 (parseInt2 (slice b i (i + 4))))"
      using 1 by simp
    then show ?thesis using True s
      by (subst binaryToHex_loop.simps, subst (2) binaryToHex_loop.simps)
         (simp add: add.assoc Let_def)
  next
    case False
    then show ?thesis
      by (subst binaryToHex_loop.simps, subst (2) binaryToHex_loop.simps) simp
  qed
qed

lemma binaryToHex_loop_eq:
  "length b = 4 * n \<Longrightarrow>
   binaryToHex_loop b 0 acc =
     acc @ concat (map (\<lambda>q. numToString 16 (parseInt2 q)) (chunksN 4 n b))"
proof (induction n arbitrary: b acc)
  case 0
  then show ?case by (subst binaryToHex_loop.simps) simp
next
  case (Suc n)
  have l: "length (take 4 b) = 4" using Suc.prems by simp
  have ld: "length (drop 4 b) = 4 * n" using Suc.prems by simp
  have pos: "0 < length b" using Suc.prems by simp
  have shift: "binaryToHex_loop b 4 a = binaryToHex_loop (drop 4 b) 0 a" for a
    using binaryToHex_loop_shift [of "take 4 b" "drop 4 b" 0 a] l by simp
  have "binaryToHex_loop b 0 acc =
      binaryToHex_loop (drop 4 b) 0 (acc @ numToString 16 (parseInt2 (take 4 b)))"
    using pos shift by (subst binaryToHex_loop.simps) (simp add: slice_0 Let_def)
  then show ?case using Suc.IH [OF ld] by simp
qed

lemma nibble_hex:
  assumes "bits q" "length q = 4"
  shows "numToString 16 (parseInt2 q) = [digitChar (bitsValue q)]" "bitsValue q < 16"
proof -
  show v: "bitsValue q < 16" using bitsValue_bound [of q] assms(2) by simp
  have "q \<noteq> []" using assms(2) by auto
  then show "numToString 16 (parseInt2 q) = [digitChar (bitsValue q)]"
    using parseInt2_bits [OF assms(1)] v by (simp add: numToString_def toStringRadix16_digit)
qed

lemma binaryToHex_eq:
  assumes "bits b" "length b = 4 * n"
  shows "binaryToHex b = Inr (hexOf b)"
proof -
  have "map (\<lambda>q. numToString 16 (parseInt2 q)) (chunksN 4 n b) =
      map (\<lambda>q. [digitChar (bitsValue q)]) (chunksN 4 n b)"
    using chunksN_length [OF assms(2)] chunksN_bits [OF assms(1)]
    by (intro map_cong) (simp_all add: nibble_hex)
  then have "concat (map (\<lambda>q. numToString 16 (parseInt2 q)) (chunksN 4 n b)) =
      map (\<lambda>q. digitChar (bitsValue q)) (chunksN 4 n b)"
    by (simp only: concat_map_singleton)
  then have "binaryToHex_loop b 0 [] = map (\<lambda>q. digitChar (bitsValue q)) (chunksN 4 n b)"
    using binaryToHex_loop_eq [OF assms(2), of "[]"] by simp
  then show ?thesis
    using assms(2) by (simp add: binaryToHex_def toUpperCase_def hexOf_def hexChar_def)
qed

lemma hexOf_props:
  assumes "bits b" "length b = 4 * n"
  shows "length (hexOf b) = n" "list_all isUpperHex (hexOf b)"
proof -
  show "length (hexOf b) = n" using assms(2) by (simp add: hexOf_def)
  have "\<And>q. q \<in> set (chunksN 4 n b) \<Longrightarrow> isUpperHex (hexChar (bitsValue q))"
    using chunksN_length [OF assms(2)] chunksN_bits [OF assms(1)]
    by (intro hexChar_upper nibble_hex(2)) auto
  then show "list_all isUpperHex (hexOf b)"
    using assms(2) by (simp add: hexOf_def list_all_iff)
qed

lemma bitsValue_inj:
  "length a = length b \<Longrightarrow> bits a \<Longrightarrow> bits b \<Longrightarrow> bitsValue a = bitsValue b \<Longrightarrow> a = b"
proof (induction a arbitrary: b rule: rev_induct)
  case Nil
  then show ?case by simp
next
  case (snoc x a)
  then obtain y b' where b: "b = b' @ [y]"
    by (cases b rule: rev_cases) auto
  have bx: "x = CHR ''0'' \<or> x = CHR ''1''" using snoc.prems(2) by (simp add: isBit_def)
  have by': "y = CHR ''0'' \<or> y = CHR ''1''" using snoc.prems(3) b by (simp add: isBit_def)
  have e: "2 * bitsValue a + bitVal x = 2 * bitsValue b' + bitVal y"
    using snoc.prems(4) b by (simp add: bitsValue_snoc)
  have "bitVal x \<le> 1" "bitVal y \<le> 1" by (simp_all add: bitVal_def)
  with e have v: "bitVal x = bitVal y" "bitsValue a = bitsValue b'" by arith+
  have "x = y" using v(1) bx by' by (auto simp: bitVal_def)
  moreover have "a = b'"
    using snoc.prems b v(2) by (intro snoc.IH) simp_all
  ultimately show ?case using b by simp
qed

lemma binary_bitsValue:
  assumes "bits q" "length q = k" "0 < k"
  shows "binary k (bitsValue q) = q"
proof -
  have v: "bitsValue q < 2 ^ k" using bitsValue_bound [of q] assms(2) by simp
  show ?thesis
    using binary_props(1,2,3) [OF v assms(3)] assms
    by (intro bitsValue_inj) simp_all
qed

lemma hexToBinary_hexOf:
  assumes "bits b" "length b = 4 * n"
  shows "hexToBinary (js (hexOf b)) = b"
proof -
  have "\<And>q. q \<in> set (chunksN 4 n b) \<Longrightarrow>
      padStart (numToString 2 (parseInt16 (of_nat (of_char (hexChar (bitsValue q)))))) 4 CHR ''0'' = q"
  proof -
    fix q assume q: "q \<in> set (chunksN 4 n b)"
    have bq: "bits q" and lq: "length q = 4"
      using chunksN_bits [OF assms(1) q] chunksN_length [OF assms(2) q] by simp_all
    have "parseInt16 (of_nat (of_char (hexChar (bitsValue q)))) = Some (bitsValue q)"
      using nibble_hex(2) [OF bq lq] by (rule parseInt16_hexChar)
    then show "padStart (numToString 2 (parseInt16 (of_nat (of_char (hexChar (bitsValue q)))))) 4 CHR ''0'' = q"
      using binary_bitsValue [OF bq lq] by (simp add: numToString_def binary_def)
  qed
  then have "map (\<lambda>q. padStart (numToString 2 (parseInt16 (of_nat (of_char (hexChar (bitsValue q)))))) 4 CHR ''0'')
      (chunksN 4 n b) = map (\<lambda>q. q) (chunksN 4 n b)"
    by (intro map_cong) simp_all
  then show ?thesis
    using assms(2) concat_chunksN [OF assms(2)]
    by (simp add: hexToBinary_def js_def hexOf_def comp_def)
qed

lemma unat16_bound: "unat (c :: 16 word) < 65536"
  using unsigned_less [of c, where ?'a = nat] by simp

lemma unit_scalar: "isScalar (if isLead c \<or> isTrail c then 0xFFFD else unat c)"
proof (cases "isLead c \<or> isTrail c")
  case True
  then show ?thesis by (simp add: isScalar_def)
next
  case False
  then have "\<not> (0xD800 \<le> unat c \<and> unat c \<le> 0xDFFF)"
    unfolding isLead_def isTrail_def by arith
  then show ?thesis using False unat16_bound [of c] by (simp add: isScalar_def)
qed

lemma toScalars_scalar: "list_all isScalar (toScalars T)"
proof (induction T rule: toScalars.induct)
  case 1
  then show ?case by simp
next
  case (2 c)
  then show ?case using unit_scalar [of c] by simp
next
  case (3 c d rest)
  show ?case
  proof (cases "isLead c \<and> isTrail d")
    case True
    then have "isScalar (0x10000 + (unat c - 0xD800) * 0x400 + (unat d - 0xDC00))"
      unfolding isScalar_def isLead_def isTrail_def by arith
    then show ?thesis using True 3 by simp
  next
    case False
    then have "toScalars (c # d # rest) =
        (if isLead c \<or> isTrail c then 0xFFFD else unat c) # toScalars (d # rest)"
      by (simp only: toScalars.simps if_False)
    then show ?thesis using unit_scalar [of c] 3(2) [OF False] by simp
  qed
qed

lemma utf8_bytes_isByte: "cp < 0x110000 \<Longrightarrow> list_all isByte (utf8_bytes cp)"
  unfolding utf8_bytes_def isByte_def by (simp; arith)

lemma TextEncoder_encode_bytes: "list_all isByte (TextEncoder_encode T)"
proof -
  have "list_all isScalar xs \<Longrightarrow> list_all isByte (concat (map utf8_bytes xs))" for xs
    by (induction xs) (simp_all add: utf8_bytes_isByte isScalar_def)
  then show ?thesis by (simp add: TextEncoder_encode_def toScalars_scalar)
qed

lemma binary8_props:
  "isByte b \<Longrightarrow> length (binary 8 b) = 8"
  "bits (binary 8 b)"
  "isByte b \<Longrightarrow> parseInt2 (binary 8 b) = Some b"
proof -
  show "bits (binary 8 b)" by (simp add: binary_def bits_padStart toStringRadix2_bits)
  assume "isByte b"
  then have "b < 2 ^ 8" by (simp add: isByte_def)
  then show "length (binary 8 b) = 8" "parseInt2 (binary 8 b) = Some b"
    using binary_props [of b 8] by simp_all
qed

lemma binary8_zero: "binary 8 0 = ''00000000''"
  by (simp add: binary_def padStart_def toStringRadix.simps digitChar_def)
     (simp add: eval_nat_numeral)

lemma binary_fun: "binary k = (\<lambda>n. padStart (toStringRadix 2 n) k CHR ''0'')"
  by (rule ext) (simp add: binary_def)

lemma byteBits_props:
  "list_all isByte bytes \<Longrightarrow> length (byteBits bytes) = 8 * length bytes"
  "bits (byteBits bytes)"
proof -
  show "bits (byteBits bytes)"
    unfolding byteBits_def by (rule bits_concat) (simp add: list_all_iff binary8_props)
  assume "list_all isByte bytes"
  then show "length (byteBits bytes) = 8 * length bytes"
    unfolding byteBits_def
    by (intro length_concat_const) (simp add: list_all_iff binary8_props)
qed

lemma byteBits_append: "byteBits (a @ b) = byteBits a @ byteBits b"
  by (simp add: byteBits_def)

lemma byteBits_zeros: "byteBits (replicate z 0) = replicate (8 * z) CHR ''0''"
proof (induction z)
  case 0
  then show ?case by (simp add: byteBits_def)
next
  case (Suc z)
  have "''00000000'' = replicate 8 CHR ''0''" by (simp add: eval_nat_numeral)
  then have "byteBits (replicate (Suc z) 0) = replicate 8 CHR ''0'' @ replicate (8 * z) CHR ''0''"
    using Suc by (simp add: byteBits_def binary8_zero)
  then show ?case by (simp add: replicate_add [symmetric])
qed

lemma pad_bits: "(64 - (8 * n) mod 64) mod 64 = 8 * padCount n"
proof -
  have "(8 * n) mod 64 = 8 * (n mod 8)"
    using mult_mod_right [of 8 n 8] by simp
  moreover have "(64 - 8 * (n mod 8)) mod 64 = 8 * ((8 - n mod 8) mod 8)"
    using mult_mod_right [of 8 "8 - n mod 8" 8] by (simp add: diff_mult_distrib2)
  ultimately show ?thesis by (simp add: padCount_def)
qed

lemma stringToBinary_eq:
  "stringToBinary T =
     byteBits (TextEncoder_encode T @ replicate (padCount (length (TextEncoder_encode T))) 0)"
proof -
  define bytes where "bytes = TextEncoder_encode T"
  have l: "length (byteBits bytes) = 8 * length bytes"
    using byteBits_props(1) TextEncoder_encode_bytes by (simp add: bytes_def)
  have "stringToBinary T = padEnd (byteBits bytes) (ceilTo (length (byteBits bytes)) 64) CHR ''0''"
    by (simp add: stringToBinary_def Let_def bytes_def byteBits_def binary_fun)
  also have "\<dots> = byteBits bytes @ replicate (8 * padCount (length bytes)) CHR ''0''"
    by (simp add: padEnd_def ceilTo_64 l pad_bits)
  finally show ?thesis
    by (simp add: byteBits_append byteBits_zeros bytes_def)
qed

lemma padCount_total: "8 dvd n + padCount n"
proof -
  have "n + padCount n = ceilTo n 8" by (simp add: padCount_def ceilTo_8)
  then show ?thesis using ceilTo_dvd [of 8 n] by simp
qed

lemma stringToBinary_props:
  "bits (stringToBinary T)"
  "length (stringToBinary T) = ceilTo (8 * length (TextEncoder_encode T)) 64"
  "64 dvd length (stringToBinary T)"
proof -
  show "bits (stringToBinary T)" by (simp add: stringToBinary_eq byteBits_props)
  have l: "length (byteBits (TextEncoder_encode T)) = 8 * length (TextEncoder_encode T)"
    using byteBits_props(1) TextEncoder_encode_bytes by simp
  have "length (byteBits (TextEncoder_encode T)) \<le> ceilTo (length (byteBits (TextEncoder_encode T))) 64"
    by (simp add: ceilTo_64)
  then show len: "length (stringToBinary T) = ceilTo (8 * length (TextEncoder_encode T)) 64"
    using l by (simp add: stringToBinary_def Let_def byteBits_def binary_fun padEnd_def)
  show "64 dvd length (stringToBinary T)"
    unfolding len by (rule ceilTo_dvd) simp
qed

lemma cipherBits_props:
  assumes "length tb = 64 * n"
  shows "length (cipherBits ka tb) = 64 * n"
    and "bits tb \<Longrightarrow> bits (cipherBits ka tb)"
proof -
  have d: "length tb div 64 = n" using assms by simp
  have l: "\<And>c. c \<in> set (chunksN 64 n tb) \<Longrightarrow> length (blockPure ka [0..<16] c) = 64"
    using chunksN_length [OF assms] by (simp add: blockPure_props(1))
  show "length (cipherBits ka tb) = 64 * n"
    unfolding cipherBits_def d
    using length_concat_const [of "chunksN 64 n tb" "blockPure ka [0..<16]" 64] l by simp
  assume b: "bits tb"
  have "\<And>c. c \<in> set (chunksN 64 n tb) \<Longrightarrow> bits (blockPure ka [0..<16] c)"
    using chunksN_length [OF assms] chunksN_bits [OF b] by (simp add: blockPure_props(2))
  then show "bits (cipherBits ka tb)"
    unfolding cipherBits_def d by (intro bits_concat) (simp add: list_all_iff)
qed

lemma plainBits_length:
  assumes "length cb = 64 * n"
  shows "length (plainBits ka cb) = 64 * n"
proof -
  have d: "length cb div 64 = n" using assms by simp
  have l: "\<And>c. c \<in> set (chunksN 64 n cb) \<Longrightarrow> length (blockPure ka (rev [0..<16]) c) = 64"
    using chunksN_length [OF assms] by (simp add: blockPure_props(1))
  show ?thesis
    unfolding plainBits_def d
    using length_concat_const [of "chunksN 64 n cb" "blockPure ka (rev [0..<16])" 64] l by simp
qed

lemma plainBits_cipherBits:
  assumes "bits tb" "length tb = 64 * n"
  shows "plainBits ka (cipherBits ka tb) = tb"
proof -
  have d: "length tb div 64 = n" using assms by simp
  have lc: "length (cipherBits ka tb) div 64 = n"
    using cipherBits_props(1) [OF assms(2), of ka] by simp
  have l: "\<And>c. c \<in> set (chunksN 64 n tb) \<Longrightarrow> length (blockPure ka [0..<16] c) = 64"
    using chunksN_length [OF assms(2)] by (simp add: blockPure_props(1))
  have "chunksN 64 (length (chunksN 64 n tb)) (concat (map (blockPure ka [0..<16]) (chunksN 64 n tb)))
      = map (blockPure ka [0..<16]) (chunksN 64 n tb)"
    using l by (rule chunksN_concat_map)
  then have ch: "chunksN 64 n (cipherBits ka tb) = map (blockPure ka [0..<16]) (chunksN 64 n tb)"
    by (simp add: cipherBits_def d)
  have "map (\<lambda>c. blockPure ka (rev [0..<16]) (blockPure ka [0..<16] c)) (chunksN 64 n tb)
      = map (\<lambda>c. c) (chunksN 64 n tb)"
    using chunksN_length [OF assms(2)] chunksN_bits [OF assms(1)]
    by (intro map_cong) (simp_all add: blockPure_inverse)
  then have "plainBits ka (cipherBits ka tb) = concat (chunksN 64 n tb)"
    by (simp add: plainBits_def lc ch comp_def)
  then show ?thesis using concat_chunksN [OF assms(2)] by simp
qed

lemma getDESCipherText_eq:
  assumes "getOutPutKeys K = Inr ka" "length ka = 16"
  shows "getDESCipherText T K = Inr (hexOf (cipherBits ka (stringToBinary T)))"
proof -
  obtain n where n: "length (stringToBinary T) = 64 * n"
    using stringToBinary_props(3) [of T] by (auto elim: dvdE)
  then have d: "length (stringToBinary T) div 64 = n" by simp
  have loop: "createDESCipherText_loop ka (stringToBinary T) 0 [] =
      Inr (cipherBits ka (stringToBinary T))"
    using createDESCipherText_loop_eq [OF n assms(2), of "[]"] by (simp add: cipherBits_def d)
  have "length (cipherBits ka (stringToBinary T)) = 4 * (16 * n)"
    using cipherBits_props(1) [OF n, of ka] by simp
  then have "binaryToHex (cipherBits ka (stringToBinary T)) =
      Inr (hexOf (cipherBits ka (stringToBinary T)))"
    using cipherBits_props(2) [OF n stringToBinary_props(1)] by (intro binaryToHex_eq)
  then show ?thesis
    using assms(1) loop by (simp add: getDESCipherText_def createDESCipherText_def)
qed

lemma getDESPlainText_eq:
  assumes "getOutPutKeys K = Inr ka" "length ka = 16" "length (hexToBinary h) = 64 * n"
  shows "getDESPlainText h K = binaryToString (plainBits ka (hexToBinary h))"
proof -
  have d: "length (hexToBinary h) div 64 = n" using assms(3) by simp
  have "createDESPlainText_loop ka (hexToBinary h) 0 [] = Inr (plainBits ka (hexToBinary h))"
    using createDESPlainText_loop_eq [OF assms(3,2), of "[]"] by (simp add: plainBits_def d)
  then show ?thesis
    using assms(1) by (simp add: getDESPlainText_def createDESPlainText_def)
qed

lemma stringToBinary_Nil: "stringToBinary [] = []"
  by (simp add: stringToBinary_def TextEncoder_encode_def padEnd_def ceilTo_def)

lemma validKey_A: "validKey (js ''A'')"
  by (simp add: validKey_def js_def)

text \<open>
  Claim C10. For every key the cipher accepts, encrypting the empty plaintext gives
  the empty bit string (zero 64-bit blocks), no error, and the empty ciphertext.
\<close>

theorem encrypt_empty_plaintext:
  assumes "validKey K"
  shows "stringToBinary [] = [] \<and> getDESCipherText [] K = Inr []"
proof -
  obtain ka where ka: "getOutPutKeys K = Inr ka" "length ka = 16"
    using getOutPutKeys_valid [OF assms] by blast
  have "getDESCipherText [] K = Inr (hexOf (cipherBits ka (stringToBinary [])))"
    using ka by (rule getDESCipherText_eq)
  then show ?thesis
    by (simp add: stringToBinary_Nil cipherBits_def hexOf_def)
qed

theorem encrypt_empty_plaintext_witness:
  "validKey (js ''A'') \<and> stringToBinary [] = [] \<and> getDESCipherText [] (js ''A'') = Inr []"
  using encrypt_empty_plaintext [OF validKey_A] validKey_A by simp

text \<open>
  Claim C7. For every plaintext and every key the cipher accepts, encryption returns
  a string of upper-case hexadecimal digits whose length is a multiple of 16, and four
  times that length is the bit length of the UTF-8 encoding (8 bits per byte) rounded
  up to the next multiple of 64.
\<close>

theorem ciphertext_is_upper_hex_of_padded_length:
  assumes "validKey K"
  shows "\<exists>h. getDESCipherText T K = Inr h \<and> list_all isUpperHex h \<and> 16 dvd length h
     \<and> 4 * length h = ceilTo (8 * length (TextEncoder_encode T)) 64
     \<and> 4 * length h = length (stringToBinary T)"
proof -
  obtain ka where ka: "getOutPutKeys K = Inr ka" "length ka = 16"
    using getOutPutKeys_valid [OF assms] by blast
  obtain n where n: "length (stringToBinary T) = 64 * n"
    using stringToBinary_props(3) [of T] by (auto elim: dvdE)
  define c where "c = cipherBits ka (stringToBinary T)"
  have lc: "length c = 4 * (16 * n)"
    using cipherBits_props(1) [OF n, of ka] by (simp add: c_def)
  have bc: "bits c"
    unfolding c_def using n stringToBinary_props(1) by (rule cipherBits_props(2))
  have e: "getDESCipherText T K = Inr (hexOf c)"
    unfolding c_def using ka by (rule getDESCipherText_eq)
  have lh: "length (hexOf c) = 16 * n" using bc lc by (rule hexOf_props(1))
  have uh: "list_all isUpperHex (hexOf c)" using bc lc by (rule hexOf_props(2))
  have "4 * length (hexOf c) = length (stringToBinary T)" using lh n by simp
  then show ?thesis
    using e uh lh stringToBinary_props(2) [of T] by simp
qed

theorem ciphertext_is_upper_hex_of_padded_length_witness:
  "validKey (js ''A'') \<and>
   (\<exists>h. getDESCipherText (js ''hello'') (js ''A'') = Inr h \<and> list_all isUpperHex h
      \<and> 16 dvd length h
      \<and> 4 * length h = ceilTo (8 * length (TextEncoder_encode (js ''hello''))) 64
      \<and> 4 * length h = length (stringToBinary (js ''hello'')))"
  using ciphertext_is_upper_hex_of_padded_length [OF validKey_A, of "js ''hello''"] validKey_A
  by simp

lemma asciiStr_list_ex: "(\<not> asciiStr K) = list_ex (\<lambda>c. unat c > 127) K"
  by (induction K) (auto simp: asciiStr_def)

lemma getDESCipherText_key_error:
  "getOutPutKeys K = Inl e \<Longrightarrow> getDESCipherText T K = Inl e"
  by (simp add: getDESCipherText_def createDESCipherText_def)

lemma getDESCipherText_valid_hex:
  assumes "validKey K"
  shows "\<exists>h. getDESCipherText T K = Inr h \<and> list_all isUpperHex h"
proof -
  obtain ka where ka: "getOutPutKeys K = Inr ka" "length ka = 16"
    using getOutPutKeys_valid [OF assms] by blast
  obtain n where n: "length (stringToBinary T) = 64 * n"
    using stringToBinary_props(3) [of T] by (auto elim: dvdE)
  have "length (cipherBits ka (stringToBinary T)) = 4 * (16 * n)"
    using cipherBits_props(1) [OF n, of ka] by simp
  moreover have "bits (cipherBits ka (stringToBinary T))"
    using n stringToBinary_props(1) by (rule cipherBits_props(2))
  ultimately have "list_all isUpperHex (hexOf (cipherBits ka (stringToBinary T)))"
    by (rule hexOf_props(2) [rotated])
  then show ?thesis using getDESCipherText_eq [OF ka, of T] by simp
qed

text \<open>
  Claim C5 (as amended). For every plaintext and every non-empty key, of any length:
  encryption fails exactly when the key contains a character whose code unit exceeds
  127, and then with the error \<^verbatim>\<open>Only ASCII characters are allowed\<close>; otherwise it succeeds
  and returns a string of upper-case hexadecimal digits.
\<close>

theorem encrypt_fails_iff_key_non_ascii:
  assumes "K \<noteq> []"
  shows "(isl (getDESCipherText T K) \<longleftrightarrow> list_ex (\<lambda>c. unat c > 127) K)
     \<and> (list_ex (\<lambda>c. unat c > 127) K \<longrightarrow>
          getDESCipherText T K = Inl (Error ''Only ASCII characters are allowed''))
     \<and> (\<not> list_ex (\<lambda>c. unat c > 127) K \<longrightarrow>
          (\<exists>h. getDESCipherText T K = Inr h \<and> list_all isUpperHex h))"
proof (cases "asciiStr K")
  case False
  then have "getDESCipherText T K = Inl (Error ''Only ASCII characters are allowed'')"
    by (intro getDESCipherText_key_error getOutPutKeys_nonascii)
  then show ?thesis using False by (simp add: asciiStr_list_ex [symmetric])
next
  case True
  then have "validKey K" using assms by (simp add: validKey_def)
  then obtain h where "getDESCipherText T K = Inr h" "list_all isUpperHex h"
    using getDESCipherText_valid_hex by blast
  then show ?thesis using True by (simp add: asciiStr_list_ex [symmetric])
qed

theorem encrypt_fails_iff_key_non_ascii_witness:
  "[0xE9 :: 16 word] \<noteq> [] \<and> js ''A'' \<noteq> []
   \<and> getDESCipherText (js ''hello'') [0xE9] = Inl (Error ''Only ASCII characters are allowed'')
   \<and> (\<exists>h. getDESCipherText (js ''hello'') (js ''A'') = Inr h \<and> list_all isUpperHex h)"
proof -
  have a: "[0xE9 :: 16 word] \<noteq> []" by simp
  have b: "js ''A'' \<noteq> []" by (simp add: js_def)
  show ?thesis
    using encrypt_fails_iff_key_non_ascii [OF a, of "js ''hello''"]
      encrypt_fails_iff_key_non_ascii [OF b, of "js ''hello''"] b
    by (simp add: js_def)
qed

text \<open>
  Counterexample to claim C5 as stated: a key of 33 ASCII characters is longer than 32
  characters, and encryption with it does not fail.
\<close>

theorem long_key_accepted_counterexample:
  "length (js ''AAAAAAAAAAAAAAAAAAAAAAAAAAAAAAAAA'') = 33
   \<and> \<not> isl (getDESCipherText (js ''hello'') (js ''AAAAAAAAAAAAAAAAAAAAAAAAAAAAAAAAA''))"
proof -
  have "validKey (js ''AAAAAAAAAAAAAAAAAAAAAAAAAAAAAAAAA'')"
    by (simp add: validKey_def js_def)
  then obtain h where
    "getDESCipherText (js ''hello'') (js ''AAAAAAAAAAAAAAAAAAAAAAAAAAAAAAAAA'') = Inr h"
    using getDESCipherText_valid_hex by blast
  then show ?thesis by (simp add: js_def)
qed

lemma padCount_multiple: "8 dvd n \<Longrightarrow> padCount n = 0"
  by (auto simp: padCount_def elim: dvdE)

lemma paddedInput_padWithDigitZero: "paddedInput K = padWithDigitZero K"
  by (simp add: paddedInput_eq padWithDigitZero_def padCount_def)

lemma paddedInput_idem: "paddedInput (padWithDigitZero K) = padWithDigitZero K"
proof -
  have "8 dvd length (padWithDigitZero K)"
    using padCount_total [of "length K"] by (simp add: padWithDigitZero_def)
  then have "padCount (length (padWithDigitZero K)) = 0" by (rule padCount_multiple)
  then show ?thesis
    unfolding paddedInput_padWithDigitZero [of "padWithDigitZero K"]
    by (simp add: padWithDigitZero_def [of "padWithDigitZero K"])
qed

lemma processKey_padWithDigitZero: "processKey (padWithDigitZero K) = processKey K"
  by (simp only: processKey_def paddedInput_idem paddedInput_padWithDigitZero [of K])

text \<open>
  Claim C9. Right-padding the key with the character \<^verbatim>\<open>'0'\<close> to the next multiple of 8
  characters changes nothing: the round keys (or the error) are the same, hence also
  the result of encryption and of decryption.
\<close>

theorem key_padded_with_digit_zero_is_interchangeable:
  "getOutPutKeys (padWithDigitZero K) = getOutPutKeys K
   \<and> getDESCipherText T (padWithDigitZero K) = getDESCipherText T K
   \<and> getDESPlainText H (padWithDigitZero K) = getDESPlainText H K"
proof -
  have k: "getOutPutKeys (padWithDigitZero K) = getOutPutKeys K"
    by (simp add: getOutPutKeys_def outPutKeys_def processKey_padWithDigitZero)
  have "getDESCipherText T (padWithDigitZero K) = getDESCipherText T K"
    by (simp add: getDESCipherText_def createDESCipherText_def k)
  moreover have "getDESPlainText H (padWithDigitZero K) = getDESPlainText H K"
    by (simp add: getDESPlainText_def createDESPlainText_def k)
  ultimately show ?thesis using k by simp
qed

lemma replicate_7: "replicate 7 x = [x, x, x, x, x, x, x]"
  by (simp add: eval_nat_numeral)

lemma padCount_1: "padCount (length (js ''A'')) = 7"
  by (simp add: padCount_def js_def)

lemma padWithDigitZero_A: "padWithDigitZero (js ''A'') = js ''A0000000''"
  unfolding padWithDigitZero_def padCount_1 replicate_7 by (simp add: js_def)

theorem key_A_and_A0000000_interchangeable:
  "length (js ''A'') mod 8 \<noteq> 0
   \<and> getOutPutKeys (js ''A0000000'') = getOutPutKeys (js ''A'')
   \<and> getDESCipherText (js ''hello'') (js ''A0000000'') = getDESCipherText (js ''hello'') (js ''A'')"
  using key_padded_with_digit_zero_is_interchangeable [of "js ''A''" "js ''hello''" "[]"]
  by (simp add: padWithDigitZero_A) (simp add: js_def)

text \<open>
  Claim C2 (as amended). In key derivation the key is padded on the right with the
  character \<^verbatim>\<open>'0'\<close> (code unit 48, not the null character) up to the next multiple of 8
  characters, and the padded key is then read in consecutive chunks of 8 characters, one
  64-bit value per chunk.
\<close>

theorem key_is_padded_with_digit_zero:
  "paddedInput K = padWithDigitZero K
   \<and> 8 dvd length (paddedInput K)
   \<and> length (paddedInput K) < length K + 8
   \<and> (asciiStr K \<longrightarrow>
        processKey_chunks (paddedInput K) 0 [] =
          Inr (map key64 (chunksN 8 (length (paddedInput K) div 8) (paddedInput K))))"
proof -
  have d: "8 dvd length (paddedInput K)"
    using padCount_total [of "length K"]
    by (simp add: paddedInput_padWithDigitZero padWithDigitZero_def)
  then obtain n where n: "length (paddedInput K) = 8 * n" by (auto elim: dvdE)
  have "padCount (length K) < 8" by (simp add: padCount_def)
  then have l: "length (paddedInput K) < length K + 8"
    by (simp add: paddedInput_padWithDigitZero padWithDigitZero_def)
  have "asciiStr K \<longrightarrow> processKey_chunks (paddedInput K) 0 [] =
      Inr (map key64 (chunksN 8 (length (paddedInput K) div 8) (paddedInput K)))"
    using processKey_chunks_eq [OF n, of "[]"] n by (simp add: asciiStr_paddedInput)
  then show ?thesis using d l paddedInput_padWithDigitZero by simp
qed

theorem key_is_padded_with_digit_zero_witness:
  "asciiStr (js ''A'')
   \<and> paddedInput (js ''A'') = js ''A0000000''
   \<and> processKey_chunks (js ''A0000000'') 0 [] = Inr [key64 (js ''A0000000'')]"
proof -
  have a: "asciiStr (js ''A'')" by (simp add: js_def)
  have p: "paddedInput (js ''A'') = js ''A0000000''"
    by (simp add: paddedInput_padWithDigitZero padWithDigitZero_A)
  have l: "length (js ''A0000000'') = 8" by (simp add: js_def)
  have "processKey_chunks (paddedInput (js ''A'')) 0 [] =
      Inr (map key64 (chunksN 8 (length (paddedInput (js ''A'')) div 8) (paddedInput (js ''A''))))"
    using key_is_padded_with_digit_zero [of "js ''A''"] a by blast
  then have "processKey_chunks (js ''A0000000'') 0 [] = Inr [key64 (js ''A0000000'')]"
    unfolding p l using l by simp
  then show ?thesis using a p by simp
qed

text \<open>
  Counterexample to claim C2 as stated: the one-character key \<^verbatim>\<open>A\<close> is not padded with
  null characters, and padding it with null characters would give another key value.
\<close>

theorem key_not_padded_with_null_counterexample:
  "paddedInput (js ''A'') \<noteq> padWithNull (js ''A'')
   \<and> processKey (js ''A'') \<noteq> processKey (padWithNull (js ''A''))"
proof -
  have n: "padWithNull (js ''A'') = [0x41, 0, 0, 0, 0, 0, 0, 0]"
    unfolding padWithNull_def padCount_1 replicate_7 by (simp add: js_def)
  have p: "paddedInput (js ''A'') = [0x41, 0x30, 0x30, 0x30, 0x30, 0x30, 0x30, 0x30]"
    by (simp add: paddedInput_padWithDigitZero padWithDigitZero_A) (simp add: js_def)
  have k1: "processKey (js ''A'') =
      Inr (Some ''1000001101100001011000010110000101100001011000010110000101100001'')"
    by code_simp
  have k2: "processKey [0x41, 0, 0, 0, 0, 0, 0, 0] =
      Inr (Some ''1000001100000001000000010000000100000001000000010000000100000001'')"
    by code_simp
  show ?thesis unfolding n p k1 k2 by simp
qed

lemma count_list_filter: "count_list s x = length (filter (\<lambda>b. b = x) s)"
  by (induction s) simp_all

lemma calculateParityBit_spec: "calculateParityBit s = [oddParityBit s]"
  by (simp add: calculateParityBit_def oddParityBit_def count_list_filter Let_def even_iff_mod_2_eq_zero)

lemma odd_parity: "odd (count_list (s @ [oddParityBit s]) CHR ''1'')"
  by (simp add: oddParityBit_def)

lemma padStart_Suc: "length s \<le> k \<Longrightarrow> padStart s (Suc k) c = c # padStart s k c"
  by (simp add: padStart_def Suc_diff_le)

lemma binary8_low:
  assumes "n \<le> 127"
  shows "binary 8 n = CHR ''0'' # binary 7 n"
proof -
  have "length (toStringRadix 2 n) \<le> 7"
    using toStringRadix2_length [of n 7] assms by simp
  then have "padStart (toStringRadix 2 n) (Suc 7) CHR ''0'' =
      CHR ''0'' # padStart (toStringRadix 2 n) 7 CHR ''0''"
    by (rule padStart_Suc)
  then show ?thesis by (simp add: binary_def)
qed

lemma sevenBits_spec:
  assumes "n \<le> 127"
  shows "sliceLast (binary 8 n) 7 = lowBits7 n"
proof -
  have "n < 2 ^ 7" using assms by simp
  then have "length (binary 7 n) = 7" using binary_props(1) [of n 7] by simp
  then have "sliceLast (binary 8 n) 7 = binary 7 n"
    using binary8_low [OF assms] by (simp add: sliceLast_def)
  then show ?thesis using assms by (simp add: lowBits7_def)
qed

lemma keyByte_spec: "unat c \<le> 127 \<Longrightarrow> keyByte c = specCharByte c"
  by (simp add: keyByte_def Let_def sevenBits_spec calculateParityBit_spec specCharByte_def)

lemma key64_spec: "asciiStr chunk \<Longrightarrow> key64 chunk = specChunkValue chunk"
  by (induction chunk) (simp_all add: key64_def specChunkValue_def keyByte_spec)

lemma xorBinaryKeys_spec:
  assumes "length a = length b"
  shows "xorBinaryKeys a b = xorBits a b"
proof (rule nth_equalityI)
  show "length (xorBinaryKeys a b) = length (xorBits a b)"
    using assms by (simp add: xorBinaryKeys_def xorBits_def)
next
  fix i assume "i < length (xorBinaryKeys a b)"
  then have i: "i < length a" "i < length b" using assms by (simp_all add: xorBinaryKeys_def)
  then show "xorBinaryKeys a b ! i = xorBits a b ! i"
    by (simp add: xorBinaryKeys_def xorBits_def charAt_Some)
qed

lemma length_xorBits: "length a = length b \<Longrightarrow> length (xorBits a b) = length a"
  by (simp add: xorBits_def)

lemma foldl_xor_spec:
  "list_all (\<lambda>v. length v = length k) rest \<Longrightarrow>
   foldl xorBinaryKeys k rest = foldl xorBits k rest"
proof (induction rest arbitrary: k)
  case Nil
  then show ?case by simp
next
  case (Cons v rest)
  have e: "xorBinaryKeys k v = xorBits k v" using Cons.prems by (simp add: xorBinaryKeys_spec)
  have "list_all (\<lambda>w. length w = length (xorBits k v)) rest"
    using Cons.prems by (simp add: length_xorBits)
  then show ?case using Cons.IH [of "xorBits k v"] e by simp
qed

lemma chunksN_ascii:
  "asciiStr s \<Longrightarrow> c \<in> set (chunksN k n s) \<Longrightarrow> asciiStr c"
proof (induction n arbitrary: s)
  case 0
  then show ?case by simp
next
  case (Suc n)
  then show ?case using asciiStr_take [of s k] asciiStr_drop [of s k] by auto
qed

text \<open>
  Claim C8. For every non-empty ASCII key: each chunk of 8 characters of the padded
  key is encoded as the concatenation, per character, of the 7 low-order bits of the
  code point and a parity bit that makes the number of set bits of the byte odd; this is
  one 64-bit value per chunk; and the derived key is the bitwise exclusive or of all
  chunk values.
\<close>

theorem key_chunks_encoded_with_odd_parity_and_xored:
  assumes "validKey K"
  shows
    "list_all (\<lambda>chunk. generate64BitKey chunk = Inr (specChunkValue chunk)
         \<and> length (specChunkValue chunk) = 64)
       (chunksN 8 (length (paddedInput K) div 8) (paddedInput K))
     \<and> list_all (\<lambda>c. length (lowBits7 (unat c)) = 7
         \<and> bitsValue (lowBits7 (unat c)) = unat c mod 128
         \<and> odd (count_list (specCharByte c) CHR ''1'')) (paddedInput K)
     \<and> processKey K =
         Inr (Some (foldl xorBits
           (specChunkValue (take 8 (paddedInput K)))
           (map specChunkValue (chunksN 8 (length (paddedInput K) div 8 - 1) (drop 8 (paddedInput K))))))"
proof -
  have K: "K \<noteq> []" "asciiStr K" using assms by (simp_all add: validKey_def)
  define p where "p = paddedInput K"
  define n where "n = length p div 8"
  have ap: "asciiStr p" using K(2) by (simp add: p_def asciiStr_paddedInput)
  have lp: "length p = 8 * n"
    using length_paddedInput [of K] by (simp add: p_def n_def)
  have n1: "n = (length K + 7) div 8"
    using length_paddedInput [of K] by (simp add: p_def n_def)
  have ch: "\<And>chunk. chunk \<in> set (chunksN 8 n p) \<Longrightarrow> length chunk = 8 \<and> asciiStr chunk"
    using chunksN_length [OF lp] chunksN_ascii [OF ap] by blast
  have first: "list_all (\<lambda>chunk. generate64BitKey chunk = Inr (specChunkValue chunk)
         \<and> length (specChunkValue chunk) = 64) (chunksN 8 n p)"
  proof -
    have "\<And>chunk. chunk \<in> set (chunksN 8 n p) \<Longrightarrow>
        generate64BitKey chunk = Inr (specChunkValue chunk) \<and> length (specChunkValue chunk) = 64"
    proof -
      fix chunk assume "chunk \<in> set (chunksN 8 n p)"
      then have c: "length chunk = 8" "asciiStr chunk" using ch by simp_all
      have "generate64BitKey chunk = Inr (specChunkValue chunk)"
        using c by (simp add: generate64BitKey_eq key64_spec)
      moreover have "length (specChunkValue chunk) = 64"
        using key64_props(1) [OF c(2)] c by (simp add: key64_spec)
      ultimately show "generate64BitKey chunk = Inr (specChunkValue chunk)
          \<and> length (specChunkValue chunk) = 64" by simp
    qed
    then show ?thesis by (simp add: list_all_iff)
  qed
  have second: "list_all (\<lambda>c. length (lowBits7 (unat c)) = 7
         \<and> bitsValue (lowBits7 (unat c)) = unat c mod 128
         \<and> odd (count_list (specCharByte c) CHR ''1'')) p"
  proof -
    have "\<And>c. c \<in> set p \<Longrightarrow> length (lowBits7 (unat c)) = 7
         \<and> bitsValue (lowBits7 (unat c)) = unat c mod 128
         \<and> odd (count_list (specCharByte c) CHR ''1'')"
    proof -
      fix c assume "c \<in> set p"
      then have u: "unat c \<le> 127" using ap by (simp add: asciiStr_def list_all_iff)
      then have lt: "unat c < 2 ^ 7" by simp
      have m: "unat c mod 128 = unat c" using u by simp
      have "bitsValue (lowBits7 (unat c)) = unat c mod 128"
        using binary_props(3) [OF lt] m by (simp add: lowBits7_def)
      moreover have "length (lowBits7 (unat c)) = 7"
        using binary_props(1) [OF lt] m by (simp add: lowBits7_def)
      ultimately show "length (lowBits7 (unat c)) = 7
         \<and> bitsValue (lowBits7 (unat c)) = unat c mod 128
         \<and> odd (count_list (specCharByte c) CHR ''1'')"
        unfolding specCharByte_def using odd_parity [of "lowBits7 (unat c)"] by simp
    qed
    then show ?thesis by (simp add: list_all_iff)
  qed
  have third: "processKey K = Inr (Some (foldl xorBits (specChunkValue (take 8 p))
      (map specChunkValue (chunksN 8 (n - 1) (drop 8 p)))))"
  proof -
    have n0: "n \<noteq> 0" using K(1) n1 by (cases K) (simp_all add: div_eq_0_iff)
    then have ld: "length (drop 8 p) = 8 * (n - 1)" using lp by (cases n) simp_all
    have at: "asciiStr (take 8 p)" and ad: "asciiStr (drop 8 p)"
      using ap by (simp_all add: asciiStr_take asciiStr_drop)
    have lt: "length (take 8 p) = 8" using lp n0 by (cases n) simp_all
    have k0: "key64 (take 8 p) = specChunkValue (take 8 p)" using at by (rule key64_spec)
    have l0: "length (specChunkValue (take 8 p)) = 64"
      using key64_props(1) [OF at] lt k0 by simp
    have rest: "map key64 (chunksN 8 (n - 1) (drop 8 p)) =
        map specChunkValue (chunksN 8 (n - 1) (drop 8 p))"
      using chunksN_ascii [OF ad] by (intro map_cong) (simp_all add: key64_spec)
    have "\<And>chunk. chunk \<in> set (chunksN 8 (n - 1) (drop 8 p)) \<Longrightarrow>
        length (specChunkValue chunk) = 64"
    proof -
      fix chunk assume c: "chunk \<in> set (chunksN 8 (n - 1) (drop 8 p))"
      have "asciiStr chunk" using chunksN_ascii [OF ad c] .
      then show "length (specChunkValue chunk) = 64"
        using key64_props(1) [of chunk] chunksN_length [OF ld c] by (simp add: key64_spec)
    qed
    then have "list_all (\<lambda>v. length v = length (specChunkValue (take 8 p)))
        (map specChunkValue (chunksN 8 (n - 1) (drop 8 p)))"
      by (simp add: list_all_iff l0)
    then have f: "foldl xorBinaryKeys (specChunkValue (take 8 p))
          (map specChunkValue (chunksN 8 (n - 1) (drop 8 p))) =
        foldl xorBits (specChunkValue (take 8 p))
          (map specChunkValue (chunksN 8 (n - 1) (drop 8 p)))"
      by (rule foldl_xor_spec)
    have "processKey K = Inr (Some (foldl xorBinaryKeys (key64 (take 8 p))
        (map key64 (chunksN 8 (n - 1) (drop 8 p)))))"
      using K n1 by (simp add: processKey_eq p_def)
    then show ?thesis unfolding k0 rest f .
  qed
  show ?thesis using first second third by (simp add: p_def n_def)
qed

theorem key_chunks_encoded_with_odd_parity_and_xored_witness:
  "validKey (js ''A'')
   \<and> generate64BitKey (js ''A0000000'') = Inr (specChunkValue (js ''A0000000''))
   \<and> odd (count_list (specCharByte 0x41) CHR ''1'')
   \<and> processKey (js ''A'') = Inr (Some (specChunkValue (js ''A0000000'')))"
proof -
  have p: "paddedInput (js ''A'') = js ''A0000000''"
    by (simp add: paddedInput_padWithDigitZero padWithDigitZero_A)
  have l: "length (js ''A0000000'') = 8" by (simp add: js_def)
  have m: "(0x41 :: 16 word) \<in> set (js ''A0000000'')" by (simp add: js_def)
  have t: "take 8 (js ''A0000000'') = js ''A0000000''" using l by simp
  note w = key_chunks_encoded_with_odd_parity_and_xored [OF validKey_A, unfolded p l]
  have "generate64BitKey (js ''A0000000'') = Inr (specChunkValue (js ''A0000000''))"
    using w t by simp
  moreover have "odd (count_list (specCharByte 0x41) CHR ''1'')"
    using w m by (simp add: list_all_iff)
  moreover have "processKey (js ''A'') = Inr (Some (specChunkValue (js ''A0000000'')))"
    using w t by simp
  ultimately show ?thesis using validKey_A by simp
qed











lemma getOutPutKeys_A: "getOutPutKeys (js ''A'') = Inr roundKeysA"
  by code_simp

lemma roundKeysA_shape: "length roundKeysA = 16" "list_all (\<lambda>K. length K = 48) roundKeysA"
  by (simp_all add: roundKeysA_def)

lemma length_leftShift: "length (leftShift s k) = length s"
  by (simp add: leftShift_def)

lemma generateSubKeys_loop_lengths:
  "length l = 28 \<Longrightarrow> length r = 28 \<Longrightarrow> list_all (\<lambda>K. length K = 48) acc \<Longrightarrow>
   list_all (\<lambda>K. length K = 48) (generateSubKeys_loop is l r acc)"
proof (induction "is" arbitrary: l r acc)
  case Nil
  then show ?case by simp
next
  case (Cons i "is")
  define l' where "l' = leftShift l (KEY_SHIFT ! i)"
  define r' where "r' = leftShift r (KEY_SHIFT ! i)"
  have ll: "length l' = 28" "length r' = 28"
    using Cons.prems by (simp_all add: l'_def r'_def length_leftShift)
  then have "rangeBits (l' @ r') PC_2 (length PC_2) = permute PC_2 (l' @ r')"
    using table_ranges(6) by (intro rangeBits_permute) simp
  then have "length (rangeBits (l' @ r') PC_2 48) = 48" by (simp add: table_lengths)
  then have "list_all (\<lambda>K. length K = 48) (acc @ [rangeBits (l' @ r') PC_2 48])"
    using Cons.prems(3) by simp
  then show ?case
    using Cons.IH [OF ll] by (simp add: Let_def l'_def r'_def)
qed

lemma round_keys_shape:
  assumes "validKey K"
  shows "\<exists>ka. getOutPutKeys K = Inr ka \<and> length ka = 16 \<and> list_all (\<lambda>K. length K = 48) ka"
proof -
  obtain k where k: "processKey K = Inr (Some k)" "length k = 64"
    using processKey_valid [OF assms] by blast
  have "rangeBits k PC_1 (length PC_1) = permute PC_1 k"
    using table_ranges(5) k(2) by (intro rangeBits_permute) simp
  then have l: "length (rangeBits k PC_1 56) = 56" by (simp add: table_lengths)
  have "list_all (\<lambda>K. length K = 48) (generateSubKeys (rangeBits k PC_1 56))"
    unfolding generateSubKeys_def using l
    by (intro generateSubKeys_loop_lengths) (simp_all add: length_slice)
  then show ?thesis
    using k(1) by (simp add: getOutPutKeys_def outPutKeys_def length_generateSubKeys)
qed



lemma mod_offset: "(r::nat) < m \<Longrightarrow> (k * m + r) mod m = r"
  by simp

lemma div_offset: "(r::nat) < m \<Longrightarrow> (k * m + r) div m = k"
  by simp

lemma decode_step_continue:
  "utf8_handler st b = Continue st' \<Longrightarrow> utf8_decode_from st (b # bs) = utf8_decode_from st' bs"
  by simp

lemma decode_step_cp:
  "utf8_handler st b = CodePoint cp \<Longrightarrow>
   utf8_decode_from st (b # bs) = Some cp # utf8_decode_from utf8_init bs"
  by simp

lemma decode_one:
  "cp < 0x80 \<Longrightarrow>
   utf8_decode_from utf8_init (utf8_bytes cp @ rest) = Some cp # utf8_decode_from utf8_init rest"
  by (simp add: utf8_bytes_def utf8_handler_def utf8_init_def)

lemma decode_two:
  assumes "0x80 \<le> cp" "cp < 0x800"
  shows "utf8_decode_from utf8_init (utf8_bytes cp @ rest) =
     Some cp # utf8_decode_from utf8_init rest"
proof -
  define a where "a = cp div 0x40"
  define b where "b = cp mod 0x40"
  have cp: "cp = a * 0x40 + b" by (simp add: a_def b_def)
  have a: "2 \<le> a" "a < 0x20" using assms by (simp_all add: a_def)
  have b: "b < 0x40" by (simp add: b_def)
  have bytes: "utf8_bytes cp = [0xC0 + a, 0x80 + b]"
    using assms by (simp add: utf8_bytes_def a_def b_def)
  have m1: "(0xC0 + a) mod 0x20 = a" using mod_offset [of a "0x20" 6] a by simp
  have m2: "(0x80 + b) mod 0x40 = b" using mod_offset [of b "0x40" 2] b by simp
  have h1: "utf8_handler utf8_init (0xC0 + a) =
      Continue (utf8_init\<lparr>bytes_needed := 1, code_point := a\<rparr>)"
    using a m1 by (simp add: utf8_handler_def utf8_init_def)
  have h2: "utf8_handler (utf8_init\<lparr>bytes_needed := 1, code_point := a\<rparr>) (0x80 + b) =
      CodePoint cp"
    using b m2 cp by (simp add: utf8_handler_def utf8_init_def Let_def)
  show ?thesis
    unfolding bytes
    by (simp only: append_Cons append_Nil decode_step_continue [OF h1] decode_step_cp [OF h2])
qed

lemma decode_three:
  assumes "0x800 \<le> cp" "cp < 0x10000" "\<not> (0xD800 \<le> cp \<and> cp \<le> 0xDFFF)"
  shows "utf8_decode_from utf8_init (utf8_bytes cp @ rest) =
     Some cp # utf8_decode_from utf8_init rest"
proof -
  define m where "m = cp div 0x40"
  define a where "a = m div 0x40"
  define b where "b = m mod 0x40"
  define c where "c = cp mod 0x40"
  have cp: "cp = m * 0x40 + c" by (simp add: m_def c_def)
  have m: "m = a * 0x40 + b" by (simp add: a_def b_def)
  have a_eq: "cp div 0x1000 = a"
    using div_mult2_eq [of cp "0x40" "0x40"] by (simp add: a_def m_def)
  have a: "a < 0x10" using assms(2) a_eq [symmetric] by simp
  have b: "b < 0x40" by (simp add: b_def)
  have c: "c < 0x40" by (simp add: c_def)
  have lo: "a = 0 \<Longrightarrow> 0x20 \<le> b"
  proof -
    assume "a = 0"
    then have "m = b" using m by simp
    moreover have "0x20 \<le> m" using assms(1) by (simp add: m_def)
    ultimately show "0x20 \<le> b" by simp
  qed
  have hi: "a = 13 \<Longrightarrow> b < 0x20"
  proof -
    assume a13: "a = 13"
    then have "0xD000 \<le> cp" using cp m by simp
    then have "cp < 0xD800" using assms(3) a13 cp m b c by simp
    then have "m < 864" by (simp add: m_def)
    then show "b < 0x20" using m a13 by simp
  qed
  have bytes: "utf8_bytes cp = [0xE0 + a, 0x80 + b, 0x80 + c]"
    using assms(1,2) by (simp add: utf8_bytes_def a_eq) (simp add: b_def m_def c_def)
  have m1: "(0xE0 + a) mod 0x10 = a" using mod_offset [of a "0x10" 14] a by simp
  have m2: "(0x80 + b) mod 0x40 = b" using mod_offset [of b "0x40" 2] b by simp
  have m3: "(0x80 + c) mod 0x40 = c" using mod_offset [of c "0x40" 2] c by simp
  define st1 where "st1 = \<lparr>code_point = a, bytes_seen = 0, bytes_needed = 2,
      lower_boundary = (if a = 0 then 0xA0 else 0x80),
      upper_boundary = (if a = 13 then 0x9F else 0xBF)\<rparr>"
  define st2 where "st2 = \<lparr>code_point = m, bytes_seen = 1, bytes_needed = 2,
      lower_boundary = 0x80, upper_boundary = 0xBF\<rparr>"
  have h1: "utf8_handler utf8_init (0xE0 + a) = Continue st1"
    using a m1 by (simp add: utf8_handler_def utf8_init_def st1_def)
  have r2: "lower_boundary st1 \<le> 0x80 + b \<and> 0x80 + b \<le> upper_boundary st1"
    using lo hi b by (auto simp: st1_def)
  have h2: "utf8_handler st1 (0x80 + b) = Continue st2"
    using r2 m2 m by (simp add: utf8_handler_def Let_def) (simp add: st1_def st2_def)
  have h3: "utf8_handler st2 (0x80 + c) = CodePoint cp"
    using c m3 cp by (simp add: utf8_handler_def st2_def Let_def)
  show ?thesis
    unfolding bytes
    by (simp only: append_Cons append_Nil decode_step_continue [OF h1]
          decode_step_continue [OF h2] decode_step_cp [OF h3])
qed

lemma decode_four:
  assumes "0x10000 \<le> cp" "cp < 0x110000"
  shows "utf8_decode_from utf8_init (utf8_bytes cp @ rest) =
     Some cp # utf8_decode_from utf8_init rest"
proof -
  define m where "m = cp div 0x40"
  define n where "n = m div 0x40"
  define a where "a = n div 0x40"
  define b where "b = n mod 0x40"
  define c where "c = m mod 0x40"
  define d where "d = cp mod 0x40"
  have cp: "cp = m * 0x40 + d" by (simp add: m_def d_def)
  have m: "m = n * 0x40 + c" by (simp add: n_def c_def)
  have n: "n = a * 0x40 + b" by (simp add: a_def b_def)
  have n_eq: "cp div 0x1000 = n"
    using div_mult2_eq [of cp "0x40" "0x40"] by (simp add: n_def m_def)
  have a_eq: "cp div 0x40000 = a"
    using div_mult2_eq [of cp "0x1000" "0x40"] by (simp add: a_def n_eq)
  have a: "a < 5" using assms(2) a_eq [symmetric] by simp
  have b: "b < 0x40" by (simp add: b_def)
  have c: "c < 0x40" by (simp add: c_def)
  have d: "d < 0x40" by (simp add: d_def)
  have lo: "a = 0 \<Longrightarrow> 0x10 \<le> b"
  proof -
    assume "a = 0"
    then have "n = b" using n by simp
    moreover have "0x10 \<le> n" using assms(1) n_eq [symmetric] by simp
    ultimately show "0x10 \<le> b" by simp
  qed
  have hi: "a = 4 \<Longrightarrow> b < 0x10"
  proof -
    assume a4: "a = 4"
    have "n < 272" using assms(2) n_eq [symmetric] by simp
    then show "b < 0x10" using n a4 by simp
  qed
  have bytes: "utf8_bytes cp = [0xF0 + a, 0x80 + b, 0x80 + c, 0x80 + d]"
    using assms(1) by (simp add: utf8_bytes_def a_eq n_eq) (simp add: b_def c_def m_def d_def)
  have m1: "(0xF0 + a) mod 0x08 = a" using mod_offset [of a "0x08" 30] a by simp
  have m2: "(0x80 + b) mod 0x40 = b" using mod_offset [of b "0x40" 2] b by simp
  have m3: "(0x80 + c) mod 0x40 = c" using mod_offset [of c "0x40" 2] c by simp
  have m4: "(0x80 + d) mod 0x40 = d" using mod_offset [of d "0x40" 2] d by simp
  define st1 where "st1 = \<lparr>code_point = a, bytes_seen = 0, bytes_needed = 3,
      lower_boundary = (if a = 0 then 0x90 else 0x80),
      upper_boundary = (if a = 4 then 0x8F else 0xBF)\<rparr>"
  define st2 where "st2 = \<lparr>code_point = n, bytes_seen = 1, bytes_needed = 3,
      lower_boundary = 0x80, upper_boundary = 0xBF\<rparr>"
  define st3 where "st3 = \<lparr>code_point = m, bytes_seen = 2, bytes_needed = 3,
      lower_boundary = 0x80, upper_boundary = 0xBF\<rparr>"
  have h1: "utf8_handler utf8_init (0xF0 + a) = Continue st1"
    using a m1 by (simp add: utf8_handler_def utf8_init_def st1_def)
  have r2: "lower_boundary st1 \<le> 0x80 + b \<and> 0x80 + b \<le> upper_boundary st1"
    using lo hi b by (auto simp: st1_def)
  have h2: "utf8_handler st1 (0x80 + b) = Continue st2"
    using r2 m2 n by (simp add: utf8_handler_def Let_def) (simp add: st1_def st2_def)
  have h3: "utf8_handler st2 (0x80 + c) = Continue st3"
    using c m3 m by (simp add: utf8_handler_def st2_def st3_def Let_def)
  have h4: "utf8_handler st3 (0x80 + d) = CodePoint cp"
    using d m4 cp by (simp add: utf8_handler_def st3_def Let_def)
  show ?thesis
    unfolding bytes
    by (simp only: append_Cons append_Nil decode_step_continue [OF h1]
          decode_step_continue [OF h2] decode_step_continue [OF h3] decode_step_cp [OF h4])
qed

lemma decode_scalar:
  "isScalar cp \<Longrightarrow>
   utf8_decode_from utf8_init (utf8_bytes cp @ rest) = Some cp # utf8_decode_from utf8_init rest"
  using decode_one [of cp rest] decode_two [of cp rest] decode_three [of cp rest]
    decode_four [of cp rest]
  unfolding isScalar_def by (cases "cp < 0x80"; cases "cp < 0x800"; cases "cp < 0x10000") simp_all

lemma decode_scalars:
  "list_all isScalar cps \<Longrightarrow>
   utf8_decode (concat (map utf8_bytes cps) @ rest) = map Some cps @ utf8_decode rest"
proof (induction cps)
  case Nil
  then show ?case by simp
next
  case (Cons cp cps)
  then show ?case by (simp add: utf8_decode_def decode_scalar)
qed

lemma utf8_decode_Nil: "utf8_decode [] = []"
  by (simp add: utf8_decode_def utf8_init_def)

lemma utf16_units_unit: "utf16_units (unat (c :: 16 word)) = [c]"
  using unat16_bound [of c] by (simp add: utf16_units_def)

lemma utf16_units_pair:
  assumes "isLead c" "isTrail d"
  shows "utf16_units (0x10000 + (unat c - 0xD800) * 0x400 + (unat d - 0xDC00)) = [c, d]"
proof -
  define x where "x = unat c - 0xD800"
  define y where "y = unat d - 0xDC00"
  have y: "y < 0x400" using assms(2) unfolding y_def isTrail_def by arith
  have c: "0xD800 + x = unat c" using assms(1) unfolding x_def isLead_def by arith
  have d: "0xDC00 + y = unat d" using assms(2) unfolding y_def isTrail_def by arith
  have dv: "(x * 0x400 + y) div 0x400 = x" using div_offset [of y "0x400" x] y by simp
  have md: "(x * 0x400 + y) mod 0x400 = y" using mod_offset [of y "0x400" x] y by simp
  have "utf16_units (0x10000 + x * 0x400 + y) =
      [of_nat (0xD800 + (x * 0x400 + y) div 0x400), of_nat (0xDC00 + (x * 0x400 + y) mod 0x400)]"
    by (simp add: utf16_units_def)
  then have "utf16_units (0x10000 + x * 0x400 + y) = [of_nat (unat c), of_nat (unat d)]"
    unfolding dv md c d .
  then show ?thesis by (simp add: x_def y_def)
qed

lemma utf16_toScalars:
  "wellFormed T \<Longrightarrow> concat (map utf16_units (toScalars T)) = T"
proof (induction T rule: toScalars.induct)
  case 1
  then show ?case by simp
next
  case (2 c)
  then show ?case by (simp add: utf16_units_unit)
next
  case (3 c d rest)
  show ?case
  proof (cases "isLead c")
    case True
    then have t: "isTrail d" and w: "wellFormed rest" using 3(3) by simp_all
    have "concat (map utf16_units (toScalars rest)) = rest"
      using 3(1) True t w by simp
    then show ?thesis using True t by (simp add: utf16_units_pair)
  next
    case False
    then have t: "\<not> isTrail c" and w: "wellFormed (d # rest)" using 3(3) by simp_all
    have "concat (map utf16_units (toScalars (d # rest))) = d # rest"
      using 3(2) False w by simp
    then show ?thesis using False t by (simp add: utf16_units_unit)
  qed
qed

lemma toScalars_hd:
  assumes "T \<noteq> []" "hd T \<noteq> 0xFEFF"
  shows "toScalars T \<noteq> [] \<and> hd (toScalars T) \<noteq> 0xFEFF"
proof -
  have u: "\<And>c :: 16 word. c \<noteq> 0xFEFF \<Longrightarrow> unat c \<noteq> 0xFEFF"
  proof
    fix c :: "16 word" assume "c \<noteq> 0xFEFF" "unat c = 0xFEFF"
    then have "of_nat (unat c) = (of_nat 0xFEFF :: 16 word)" by simp
    then have "c = 0xFEFF" by simp
    then show False using \<open>c \<noteq> 0xFEFF\<close> by simp
  qed
  show ?thesis
  proof (cases T rule: toScalars.cases)
    case 1
    then show ?thesis using assms by simp
  next
    case (2 c)
    then show ?thesis using assms u [of c] by simp
  next
    case (3 c d rest)
    then show ?thesis using assms u [of c] by (simp add: isLead_def)
  qed
qed

lemma dropBOM_no_bom:
  "T = [] \<or> hd T \<noteq> 0xFEFF \<Longrightarrow> dropBOM (toScalars T @ zs) = toScalars T @ zs \<or>
     (T = [] \<and> dropBOM zs \<noteq> zs)"
  using toScalars_hd [of T]
  by (cases "T = []"; cases "toScalars T") (auto simp: dropBOM_def)

lemma utf16_zeros: "concat (map utf16_units (replicate z 0)) = replicate z 0"
  by (induction z) (simp_all add: utf16_units_def)

lemma binaryToString_loop_shift:
  "binaryToString_loop (pre @ b) (length pre + i) acc = binaryToString_loop b i acc"
proof (induction b i acc rule: binaryToString_loop.induct)
  case (1 b i acc)
  have s: "slice (pre @ b) (length pre + i) (length pre + i + 8) = slice b i (i + 8)"
    using slice_shift [of pre b i "i + 8"] by (simp add: add.assoc)
  show ?case
  proof (cases "i < length b")
    case True
    then have "binaryToString_loop (pre @ b) (length pre + (i + 8))
          (acc @ [parseInt2 (slice b i (i + 8))]) =
        binaryToString_loop b (i + 8) (acc @ [parseInt2 (slice b i (i + 8))])"
      using 1 by simp
    then show ?thesis using True s
      by (subst binaryToString_loop.simps, subst (2) binaryToString_loop.simps)
         (simp add: add.assoc Let_def)
  next
    case False
    then show ?thesis
      by (subst binaryToString_loop.simps, subst (2) binaryToString_loop.simps) simp
  qed
qed

lemma binaryToString_loop_eq:
  "length b = 8 * n \<Longrightarrow>
   binaryToString_loop b 0 acc = acc @ map parseInt2 (chunksN 8 n b)"
proof (induction n arbitrary: b acc)
  case 0
  then show ?case by (subst binaryToString_loop.simps) simp
next
  case (Suc n)
  have l: "length (take 8 b) = 8" using Suc.prems by simp
  have ld: "length (drop 8 b) = 8 * n" using Suc.prems by simp
  have pos: "0 < length b" using Suc.prems by simp
  have shift: "binaryToString_loop b 8 a = binaryToString_loop (drop 8 b) 0 a" for a
    using binaryToString_loop_shift [of "take 8 b" "drop 8 b" 0 a] l by simp
  have "binaryToString_loop b 0 acc =
      binaryToString_loop (drop 8 b) 0 (acc @ [parseInt2 (take 8 b)])"
    using pos shift by (subst binaryToString_loop.simps) (simp add: slice_0 Let_def)
  then show ?case using Suc.IH [OF ld] by simp
qed

lemma binaryToString_decode:
  "binaryToString b = TextDecoder_decode False False (bytesOfBits b)"
  by (simp add: binaryToString_def bytesOfBits_def)

lemma bytesOfBits_byteBits:
  assumes "list_all isByte bytes"
  shows "bytesOfBits (byteBits bytes) = bytes"
proof -
  have l: "length (byteBits bytes) = 8 * length bytes" using assms by (rule byteBits_props(1))
  have "chunksN 8 (length bytes) (concat (map (binary 8) bytes)) = map (binary 8) bytes"
    using assms by (intro chunksN_concat_map) (simp add: list_all_iff binary8_props)
  then have "binaryToString_loop (byteBits bytes) 0 [] = map parseInt2 (map (binary 8) bytes)"
    using binaryToString_loop_eq [OF l, of "[]"] by (simp add: byteBits_def)
  also have "\<dots> = map Some bytes"
    using assms by (simp add: list_all_iff binary8_props)
  finally have "bytesOfBits (byteBits bytes) = map (\<lambda>b. b mod 256) bytes"
    by (simp add: bytesOfBits_def toUint8_def comp_def)
  also have "\<dots> = map (\<lambda>b. b) bytes"
    using assms by (intro map_cong) (simp_all add: list_all_iff isByte_def)
  finally show ?thesis by simp
qed

lemma TextDecoder_decode_nonfatal:
  "TextDecoder_decode False False bytes =
     Inr (concat (map utf16_units
       (dropBOM (map (\<lambda>x. case x of None \<Rightarrow> 0xFFFD | Some cp \<Rightarrow> cp) (utf8_decode bytes)))))"
  by (simp add: TextDecoder_decode_def dropBOM_def Let_def split: list.splits)

lemma isScalar_0: "isScalar 0"
  by (simp add: isScalar_def)

lemma utf8_bytes_0: "utf8_bytes 0 = [0]"
  by (simp add: utf8_bytes_def)

lemma encode_with_zeros:
  "TextEncoder_encode T @ replicate z 0 = concat (map utf8_bytes (toScalars T @ replicate z 0))"
proof -
  have "concat (map utf8_bytes (replicate z 0)) = replicate z 0"
    by (induction z) (simp_all add: utf8_bytes_0)
  then show ?thesis by (simp add: TextEncoder_encode_def)
qed

lemma decode_encode_with_zeros:
  "TextDecoder_decode False False (TextEncoder_encode T @ replicate z 0) =
     Inr (concat (map utf16_units (dropBOM (toScalars T @ replicate z 0))))"
proof -
  have "list_all isScalar (replicate z 0)"
    by (induction z) (simp_all add: isScalar_0)
  then have "list_all isScalar (toScalars T @ replicate z 0)"
    using toScalars_scalar [of T] by simp
  then have "utf8_decode (concat (map utf8_bytes (toScalars T @ replicate z 0)) @ []) =
      map Some (toScalars T @ replicate z 0) @ utf8_decode []"
    by (rule decode_scalars)
  then have "utf8_decode (TextEncoder_encode T @ replicate z 0) =
      map Some (toScalars T @ replicate z 0)"
    by (simp add: encode_with_zeros utf8_decode_Nil)
  then show ?thesis
    by (simp add: TextDecoder_decode_nonfatal comp_def)
qed

lemma js_hexOf_length: "length (js h) = length h"
  by (simp add: js_def)

text \<open>
  Decrypting what encryption returned, for any text: the result is the decoder's
  reading of the UTF-8 bytes of the text followed by the zero bytes of the padding.
\<close>

lemma roundtrip_general:
  assumes "validKey K"
  shows "\<exists>h. getDESCipherText T K = Inr h \<and>
     getDESPlainText (js h) K =
       Inr (concat (map utf16_units
         (dropBOM (toScalars T @ replicate (padCount (length (TextEncoder_encode T))) 0))))"
proof -
  obtain ka where ka: "getOutPutKeys K = Inr ka" "length ka = 16"
    using getOutPutKeys_valid [OF assms] by blast
  define tb where "tb = stringToBinary T"
  define c where "c = cipherBits ka tb"
  define z where "z = padCount (length (TextEncoder_encode T))"
  obtain n where n: "length tb = 64 * n"
    using stringToBinary_props(3) [of T] by (auto simp: tb_def elim: dvdE)
  have bt: "bits tb" by (simp add: tb_def stringToBinary_props)
  have lc: "length c = 4 * (16 * n)" using cipherBits_props(1) [OF n, of ka] by (simp add: c_def)
  have lc64: "length c = 64 * n" using lc by simp
  have bc: "bits c" unfolding c_def using n bt by (rule cipherBits_props(2))
  have e: "getDESCipherText T K = Inr (hexOf c)"
    unfolding c_def tb_def using ka by (rule getDESCipherText_eq)
  have hb: "hexToBinary (js (hexOf c)) = c" using bc lc by (rule hexToBinary_hexOf)
  have pc: "plainBits ka c = tb" unfolding c_def using bt n by (rule plainBits_cipherBits)
  have "getDESPlainText (js (hexOf c)) K = binaryToString (plainBits ka (hexToBinary (js (hexOf c))))"
    using ka lc64 by (intro getDESPlainText_eq) (simp_all add: hb)
  also have "\<dots> = binaryToString tb"
    by (simp only: hb pc)
  also have "\<dots> = TextDecoder_decode False False (bytesOfBits tb)"
    by (rule binaryToString_decode)
  also have "bytesOfBits tb = TextEncoder_encode T @ replicate z 0"
  proof -
    have "list_all isByte (replicate z 0)"
      by (induction z) (simp_all add: isByte_def)
    then have "list_all isByte (TextEncoder_encode T @ replicate z 0)"
      using TextEncoder_encode_bytes [of T] by simp
    then show ?thesis
      unfolding tb_def stringToBinary_eq z_def [symmetric] by (rule bytesOfBits_byteBits)
  qed
  also have "TextDecoder_decode False False (TextEncoder_encode T @ replicate z 0) =
      Inr (concat (map utf16_units (dropBOM (toScalars T @ replicate z 0))))"
    by (rule decode_encode_with_zeros)
  finally show ?thesis using e by (auto simp: z_def)
qed

lemma cipherBits_one_block:
  assumes "length tb = 64" "length ka = 16" "processBlock ka [0..<16] tb = Inr cb"
  shows "cipherBits ka tb = cb"
proof -
  have "processBlock ka [0..<16] tb = Inr (blockPure ka [0..<16] tb)"
    using assms(1) indices16(1) [OF assms(2)] by (rule processBlock_eq)
  then have "blockPure ka [0..<16] tb = cb" using assms(3) by simp
  then show ?thesis using assms(1) by (simp add: cipherBits_def)
qed

lemma plainBits_one_block:
  assumes "length cb = 64" "length ka = 16" "processBlock ka (rev [0..<16]) cb = Inr tb"
  shows "plainBits ka cb = tb"
proof -
  have "processBlock ka (rev [0..<16]) cb = Inr (blockPure ka (rev [0..<16]) cb)"
    using assms(1) indices16(2) [OF assms(2)] by (rule processBlock_eq)
  then have "blockPure ka (rev [0..<16]) cb = tb" using assms(3) by simp
  then show ?thesis using assms(1) by (simp add: plainBits_def)
qed

lemma encrypt_bom_text:
  "getDESCipherText [0xFEFF, 0x41, 0x42, 0x43, 0x44, 0x45] (js ''A'') = Inr ''2A76A6D10D7D9345''"
proof -
  have enc: "TextEncoder_encode [0xFEFF, 0x41, 0x42, 0x43, 0x44, 0x45] =
      [239, 187, 191, 65, 66, 67, 68, 69]"
    by (simp add: TextEncoder_encode_def utf8_bytes_def isLead_def isTrail_def)
  have bb: "byteBits [239, 187, 191, 65, 66, 67, 68, 69] =
      ''1110111110111011101111110100000101000010010000110100010001000101''"
    by code_simp
  have tb: "stringToBinary [0xFEFF, 0x41, 0x42, 0x43, 0x44, 0x45] =
      ''1110111110111011101111110100000101000010010000110100010001000101''"
    unfolding stringToBinary_eq enc using bb by (simp add: padCount_def)
  have pb: "processBlock roundKeysA [0..<16]
        ''1110111110111011101111110100000101000010010000110100010001000101'' =
      Inr ''0010101001110110101001101101000100001101011111011001001101000101''"
    by code_simp
  have cb: "cipherBits roundKeysA ''1110111110111011101111110100000101000010010000110100010001000101''
      = ''0010101001110110101001101101000100001101011111011001001101000101''"
    using _ roundKeysA_shape(1) pb by (rule cipherBits_one_block) simp
  have hx: "hexOf ''0010101001110110101001101101000100001101011111011001001101000101'' =
      ''2A76A6D10D7D9345''"
    by code_simp
  show ?thesis
    using getDESCipherText_eq [OF getOutPutKeys_A roundKeysA_shape(1),
        of "[0xFEFF, 0x41, 0x42, 0x43, 0x44, 0x45]"]
    unfolding tb cb hx .
qed

lemma roundTrip_general:
  assumes "validKey K"
  shows "roundTrip T K =
     Inr (concat (map utf16_units
       (dropBOM (toScalars T @ replicate (padCount (length (TextEncoder_encode T))) 0))))"
  using roundtrip_general [OF assms, of T] by (auto simp: roundTrip_def)

lemma utf16_zeros': "concat (replicate z (utf16_units 0)) = replicate z 0"
  by (induction z) (simp_all add: utf16_units_def)

lemma replicate_3: "replicate 3 x = [x, x, x]"
  by (simp add: eval_nat_numeral)

lemma replicate_5: "replicate 5 x = [x, x, x, x, x]"
  by (simp add: eval_nat_numeral)

lemma padCount_5: "padCount 5 = 3"
  by (simp add: padCount_def)

lemma padCount_3: "padCount 3 = 5"
  by (simp add: padCount_def)

lemma TextEncoder_encode_Nil: "TextEncoder_encode [] = []"
  by (simp add: TextEncoder_encode_def)

lemma padCount_0: "padCount 0 = 0"
  by (simp add: padCount_def)

text \<open>
  Claim C1 (as amended). For every key the cipher accepts (in particular every ASCII
  key of 1 to 32 characters) and every text that is well-formed UTF-16 and does not begin
  with U+FEFF: decrypting the encryption of the text gives the text followed by
  \<open>(8 - n mod 8) mod 8\<close> null characters, where \<open>n\<close> is the length of its UTF-8 encoding;
  this is the text itself when \<open>n\<close> is a multiple of 8.
\<close>

theorem roundtrip_keeps_text_and_zero_padding:
  assumes "validKey K" "wellFormed T" "T = [] \<or> hd T \<noteq> 0xFEFF"
  shows "roundTrip T K = Inr (T @ replicate (padCount (length (TextEncoder_encode T))) 0)
     \<and> (length (TextEncoder_encode T) mod 8 = 0 \<longrightarrow> roundTrip T K = Inr T)"
proof -
  define z where "z = padCount (length (TextEncoder_encode T))"
  have d: "dropBOM (toScalars T @ replicate z 0) = toScalars T @ replicate z 0"
  proof (cases "T = []")
    case True
    then show ?thesis by (simp add: z_def TextEncoder_encode_Nil padCount_0 dropBOM_def)
  next
    case False
    then have "toScalars T \<noteq> [] \<and> hd (toScalars T) \<noteq> 0xFEFF"
      using assms(3) by (intro toScalars_hd) simp_all
    then show ?thesis by (cases "toScalars T") (simp_all add: dropBOM_def)
  qed
  have "roundTrip T K = Inr (concat (map utf16_units (toScalars T @ replicate z 0)))"
    using roundTrip_general [OF assms(1), of T] d by (simp add: z_def)
  then have r: "roundTrip T K = Inr (T @ replicate z 0)"
    using utf16_toScalars [OF assms(2)] by (simp add: utf16_zeros')
  have "length (TextEncoder_encode T) mod 8 = 0 \<longrightarrow> z = 0"
    by (simp add: z_def padCount_def)
  then show ?thesis using r by (auto simp: z_def)
qed

theorem roundtrip_keeps_text_and_zero_padding_witness:
  "validKey (js ''A'') \<and> wellFormed (js ''hello'') \<and> hd (js ''hello'') \<noteq> 0xFEFF
   \<and> roundTrip (js ''hello'') (js ''A'') = Inr (js ''hello'' @ [0, 0, 0])
   \<and> wellFormed (js ''12345678'') \<and> length (TextEncoder_encode (js ''12345678'')) mod 8 = 0
   \<and> roundTrip (js ''12345678'') (js ''A'') = Inr (js ''12345678'')"
proof -
  have w1: "wellFormed (js ''hello'')" by (simp add: js_def isLead_def isTrail_def)
  have h1: "hd (js ''hello'') \<noteq> 0xFEFF" by (simp add: js_def)
  have l1: "length (TextEncoder_encode (js ''hello'')) = 5"
    by (simp add: js_def TextEncoder_encode_def utf8_bytes_def isLead_def isTrail_def)
  have w2: "wellFormed (js ''12345678'')" by (simp add: js_def isLead_def isTrail_def)
  have h2: "hd (js ''12345678'') \<noteq> 0xFEFF" by (simp add: js_def)
  have l2: "length (TextEncoder_encode (js ''12345678'')) = 8"
    by (simp add: js_def TextEncoder_encode_def utf8_bytes_def isLead_def isTrail_def)
  have p: "replicate (padCount 5) (0 :: 16 word) = [0, 0, 0]"
    by (simp only: padCount_5 replicate_3)
  have "roundTrip (js ''hello'') (js ''A'') = Inr (js ''hello'' @ [0, 0, 0])"
    using roundtrip_keeps_text_and_zero_padding [OF validKey_A w1] h1 unfolding l1 p by simp
  moreover have "roundTrip (js ''12345678'') (js ''A'') = Inr (js ''12345678'')"
    using roundtrip_keeps_text_and_zero_padding [OF validKey_A w2] h2 unfolding l2
    by (simp add: padCount_def)
  ultimately show ?thesis using validKey_A w1 h1 w2 l2 by simp
qed

text \<open>
  Counterexample to claim C1 as stated. The text U+FEFF \<^verbatim>\<open>ABCDE\<close> has a UTF-8 encoding of
  8 bytes, but the round trip returns \<^verbatim>\<open>ABCDE\<close>: the decoder drops the leading byte order
  mark. The text consisting of the unpaired surrogate U+D800 comes back as U+FFFD
  followed by five null characters, which is not the text followed by null characters.
\<close>

theorem roundtrip_loses_bom_and_lone_surrogate_counterexample:
  "validKey (js ''A'')
   \<and> length (TextEncoder_encode [0xFEFF, 0x41, 0x42, 0x43, 0x44, 0x45]) mod 8 = 0
   \<and> getDESCipherText [0xFEFF, 0x41, 0x42, 0x43, 0x44, 0x45] (js ''A'') = Inr ''2A76A6D10D7D9345''
   \<and> getDESPlainText (js ''2A76A6D10D7D9345'') (js ''A'') = Inr [0x41, 0x42, 0x43, 0x44, 0x45]
   \<and> roundTrip [0xD800] (js ''A'') = Inr [0xFFFD, 0, 0, 0, 0, 0]"
proof -
  have enc: "TextEncoder_encode [0xFEFF, 0x41, 0x42, 0x43, 0x44, 0x45] =
      [239, 187, 191, 65, 66, 67, 68, 69]"
    by (simp add: TextEncoder_encode_def utf8_bytes_def isLead_def isTrail_def)
  have "roundTrip [0xFEFF, 0x41, 0x42, 0x43, 0x44, 0x45] (js ''A'') =
      Inr [0x41, 0x42, 0x43, 0x44, 0x45]"
    unfolding roundTrip_general [OF validKey_A] enc
    by (simp add: padCount_def isLead_def isTrail_def dropBOM_def utf16_units_def)
  then have bom: "getDESPlainText (js ''2A76A6D10D7D9345'') (js ''A'') =
      Inr [0x41, 0x42, 0x43, 0x44, 0x45]"
    by (simp add: roundTrip_def encrypt_bom_text)
  have enc2: "TextEncoder_encode [0xD800] = [239, 191, 189]"
    by (simp add: TextEncoder_encode_def utf8_bytes_def isLead_def)
  have p: "replicate (padCount 3) (0 :: nat) = [0, 0, 0, 0, 0]"
    by (simp only: padCount_3 replicate_5)
  have "length [239 :: nat, 191, 189] = 3" by simp
  then have sur: "roundTrip [0xD800] (js ''A'') = Inr [0xFFFD, 0, 0, 0, 0, 0]"
    unfolding roundTrip_general [OF validKey_A] enc2
    by (simp only: p) (simp add: isLead_def dropBOM_def utf16_units_def)
  show ?thesis using validKey_A enc encrypt_bom_text bom sur by simp
qed

lemma length_hexDigitBits:
  "length (padStart (numToString 2 (parseInt16 c)) 4 CHR ''0'') = 4"
proof (cases "parseInt16 c")
  case None
  then show ?thesis by (simp add: numToString_def padStart_def)
next
  case (Some v)
  then have "v < 2 ^ 4" by (auto simp: parseInt16_def Let_def split: if_splits)
  then have "length (binary 4 v) = 4" using binary_props(1) [of v 4] by simp
  then show ?thesis using Some by (simp add: numToString_def binary_def)
qed

lemma length_hexToBinary: "length (hexToBinary H) = 4 * length H"
  unfolding hexToBinary_def
  using length_concat_const [of H "\<lambda>c. padStart (numToString 2 (parseInt16 c)) 4 CHR ''0''" 4]
  by (simp add: length_hexDigitBits)

lemma TextDecoder_decode_fatal:
  "TextDecoder_decode True False bytes = Inl TypeError \<longleftrightarrow> \<not> validUtf8 bytes"
  by (auto simp: TextDecoder_decode_def validUtf8_def list_all_iff Let_def)

lemma getDESPlainText_blocks:
  assumes "validKey K" "16 dvd length H"
  shows "\<exists>ka. getOutPutKeys K = Inr ka \<and> length ka = 16 \<and>
     getDESPlainText H K = TextDecoder_decode False False (recoveredBytes ka H)"
proof -
  obtain ka where ka: "getOutPutKeys K = Inr ka" "length ka = 16"
    using getOutPutKeys_valid [OF assms(1)] by blast
  obtain m where "length H = 16 * m" using assms(2) by (auto elim: dvdE)
  then have "length (hexToBinary H) = 64 * m" by (simp add: length_hexToBinary)
  then have "getDESPlainText H K = binaryToString (plainBits ka (hexToBinary H))"
    using ka by (intro getDESPlainText_eq)
  then show ?thesis using ka by (simp add: binaryToString_decode recoveredBytes_def)
qed

lemma hexToBinary_zeros:
  "hexToBinary (js ''0000000000000000'') =
     ''0000000000000000000000000000000000000000000000000000000000000000''"
  by (simp add: hexToBinary_def js_def parseInt16_def numToString_def padStart_def
        toStringRadix.simps digitChar_def replicate_3)

lemma decrypt_zero_block:
  "processBlock roundKeysA (rev [0..<16])
      ''0000000000000000000000000000000000000000000000000000000000000000'' =
     Inr ''1001011001011100000011110011111101110100001001011111000110011010''"
  by code_simp

lemma recoveredBytes_zero_block:
  "recoveredBytes roundKeysA (js ''0000000000000000'') = [150, 92, 15, 63, 116, 37, 241, 154]"
proof -
  have "plainBits roundKeysA ''0000000000000000000000000000000000000000000000000000000000000000''
      = ''1001011001011100000011110011111101110100001001011111000110011010''"
    using _ roundKeysA_shape(1) decrypt_zero_block by (rule plainBits_one_block) simp
  moreover have "bytesOfBits ''1001011001011100000011110011111101110100001001011111000110011010''
      = [150, 92, 15, 63, 116, 37, 241, 154]"
    by code_simp
  ultimately show ?thesis by (simp add: recoveredBytes_def hexToBinary_zeros)
qed

lemma utf8_decode_zero_block:
  "utf8_decode [150, 92, 15, 63, 116, 37, 241, 154] =
     [None, Some 92, Some 15, Some 63, Some 116, Some 37, None]"
  by (simp add: utf8_decode_def utf8_handler_def utf8_init_def Let_def)

lemma createDESPlainText_loop_blocks:
  assumes "length ka = 16" "16 dvd length H"
  shows "createDESPlainText_loop ka (hexToBinary H) 0 [] = Inr (plainBits ka (hexToBinary H))"
proof -
  obtain m where "length H = 16 * m" using assms(2) by (auto elim: dvdE)
  then have l: "length (hexToBinary H) = 64 * m" by (simp add: length_hexToBinary)
  then have d: "length (hexToBinary H) div 64 = m" by simp
  show ?thesis
    using createDESPlainText_loop_eq [OF l assms(1), of "[]"] by (simp add: plainBits_def d)
qed

text \<open>
  Claim C4 (as amended). For every key the cipher accepts and every ciphertext string
  whose length is a multiple of 16 characters (as that of every well-formed hexadecimal
  ciphertext is), decryption returns a string and does not fail, whether or not the
  bytes recovered by the block loop are valid UTF-8: the result is the non-fatal UTF-8
  decoding of the recovered bytes, in which each malformed sequence is replaced by
  U+FFFD (and a leading U+FEFF is dropped).
\<close>

theorem decrypt_replaces_invalid_utf8:
  assumes "validKey K" "16 dvd length H"
  shows "\<exists>ka tb. getOutPutKeys K = Inr ka
     \<and> createDESPlainText_loop ka (hexToBinary H) 0 [] = Inr tb
     \<and> getDESPlainText H K =
         Inr (concat (map utf16_units (dropBOM (replaceErrors (utf8_decode (bytesOfBits tb))))))"
proof -
  obtain ka where ka: "getOutPutKeys K = Inr ka" "length ka = 16"
    "getDESPlainText H K = TextDecoder_decode False False (recoveredBytes ka H)"
    using getDESPlainText_blocks [OF assms] by blast
  define tb where "tb = plainBits ka (hexToBinary H)"
  have l: "createDESPlainText_loop ka (hexToBinary H) 0 [] = Inr tb"
    unfolding tb_def using ka(2) assms(2) by (rule createDESPlainText_loop_blocks)
  have "getDESPlainText H K =
      Inr (concat (map utf16_units (dropBOM (replaceErrors (utf8_decode (bytesOfBits tb))))))"
    unfolding ka(3) TextDecoder_decode_nonfatal replaceErrors_def recoveredBytes_def tb_def ..
  then show ?thesis using ka(1) l by blast
qed

lemma length_16_zeros: "length (js ''0000000000000000'') = 16"
  by (simp add: js_def)

lemma loop_zero_block:
  "createDESPlainText_loop roundKeysA (hexToBinary (js ''0000000000000000'')) 0 [] =
     Inr ''1001011001011100000011110011111101110100001001011111000110011010''"
proof -
  have "16 dvd length (js ''0000000000000000'')" by (simp add: length_16_zeros)
  then have "createDESPlainText_loop roundKeysA (hexToBinary (js ''0000000000000000'')) 0 [] =
      Inr (plainBits roundKeysA (hexToBinary (js ''0000000000000000'')))"
    using roundKeysA_shape(1) by (intro createDESPlainText_loop_blocks)
  moreover have "plainBits roundKeysA ''0000000000000000000000000000000000000000000000000000000000000000''
      = ''1001011001011100000011110011111101110100001001011111000110011010''"
    using _ roundKeysA_shape(1) decrypt_zero_block by (rule plainBits_one_block) simp
  ultimately show ?thesis by (simp add: hexToBinary_zeros)
qed

lemma bytesOfBits_zero_block:
  "bytesOfBits ''1001011001011100000011110011111101110100001001011111000110011010''
      = [150, 92, 15, 63, 116, 37, 241, 154]"
  by code_simp

theorem decrypt_replaces_invalid_utf8_witness:
  "validKey (js ''A'') \<and> 16 dvd length (js ''0000000000000000'')
   \<and> getOutPutKeys (js ''A'') = Inr roundKeysA
   \<and> createDESPlainText_loop roundKeysA (hexToBinary (js ''0000000000000000'')) 0 [] =
       Inr ''1001011001011100000011110011111101110100001001011111000110011010''
   \<and> getDESPlainText (js ''0000000000000000'') (js ''A'') =
       Inr (concat (map utf16_units (dropBOM (replaceErrors (utf8_decode (bytesOfBits
              ''1001011001011100000011110011111101110100001001011111000110011010''))))))"
proof -
  have l: "16 dvd length (js ''0000000000000000'')" by (simp add: length_16_zeros)
  show ?thesis
    using decrypt_replaces_invalid_utf8 [OF validKey_A l] validKey_A l
    by (simp add: getOutPutKeys_A loop_zero_block)
qed

text \<open>
  Counterexample to claim C4 as stated: with key \<^verbatim>\<open>A\<close> the well-formed ciphertext
  \<^verbatim>\<open>0000000000000000\<close> decrypts to the bytes \<^verbatim>\<open>96 5C 0F 3F 74 25 F1 9A\<close>, which are
  not valid UTF-8 (the decoder in fatal mode rejects them), and decryption returns a
  string instead of failing.
\<close>

theorem invalid_utf8_is_not_an_error_counterexample:
  "getOutPutKeys (js ''A'') = Inr roundKeysA
   \<and> createDESPlainText_loop roundKeysA (hexToBinary (js ''0000000000000000'')) 0 [] =
       Inr ''1001011001011100000011110011111101110100001001011111000110011010''
   \<and> bytesOfBits ''1001011001011100000011110011111101110100001001011111000110011010'' =
       [0x96, 0x5C, 0x0F, 0x3F, 0x74, 0x25, 0xF1, 0x9A]
   \<and> TextDecoder_decode True False [0x96, 0x5C, 0x0F, 0x3F, 0x74, 0x25, 0xF1, 0x9A] = Inl TypeError
   \<and> getDESPlainText (js ''0000000000000000'') (js ''A'') =
       Inr [0xFFFD, 0x5C, 0x0F, 0x3F, 0x74, 0x25, 0xFFFD]"
proof -
  have v: "\<not> validUtf8 [150, 92, 15, 63, 116, 37, 241, 154]"
    by (simp add: validUtf8_def utf8_decode_zero_block)
  then have f: "TextDecoder_decode True False [150, 92, 15, 63, 116, 37, 241, 154] = Inl TypeError"
    by (simp add: TextDecoder_decode_fatal)
  have l: "16 dvd length (js ''0000000000000000'')" by (simp add: length_16_zeros)
  obtain ka where ka: "getOutPutKeys (js ''A'') = Inr ka"
    "getDESPlainText (js ''0000000000000000'') (js ''A'') =
       TextDecoder_decode False False (recoveredBytes ka (js ''0000000000000000''))"
    using getDESPlainText_blocks [OF validKey_A l] by blast
  have "ka = roundKeysA" using ka(1) by (simp add: getOutPutKeys_A)
  then have "getDESPlainText (js ''0000000000000000'') (js ''A'') =
      TextDecoder_decode False False [150, 92, 15, 63, 116, 37, 241, 154]"
    using ka(2) by (simp add: recoveredBytes_zero_block)
  also have "\<dots> = Inr [0xFFFD, 0x5C, 0x0F, 0x3F, 0x74, 0x25, 0xFFFD]"
    unfolding TextDecoder_decode_nonfatal utf8_decode_zero_block
    by (simp add: dropBOM_def utf16_units_def)
  finally have g: "getDESPlainText (js ''0000000000000000'') (js ''A'') =
      Inr [0xFFFD, 0x5C, 0x0F, 0x3F, 0x74, 0x25, 0xFFFD]" .
  have b: "bytesOfBits ''1001011001011100000011110011111101110100001001011111000110011010'' =
       [0x96, 0x5C, 0x0F, 0x3F, 0x74, 0x25, 0xF1, 0x9A]"
    using bytesOfBits_zero_block by simp
  have f': "TextDecoder_decode True False [0x96, 0x5C, 0x0F, 0x3F, 0x74, 0x25, 0xF1, 0x9A] = Inl TypeError"
    using f by simp
  show ?thesis
    using getOutPutKeys_A loop_zero_block b f' g by (simp only: simp_thms)
qed

lemma length_jsIndex_ge: "1 \<le> length (jsIndex s k)"
  by (simp add: jsIndex_def)

lemma length_concat_ge:
  "(\<And>x. x \<in> set xs \<Longrightarrow> 1 \<le> length (f x)) \<Longrightarrow> length xs \<le> length (concat (map f xs))"
proof (induction xs)
  case Nil
  then show ?case by simp
next
  case (Cons a xs)
  have "1 \<le> length (f a)" using Cons.prems by simp
  moreover have "length xs \<le> length (concat (map f xs))" using Cons by simp
  ultimately show ?case by simp
qed

lemma length_concat_gt:
  assumes "\<And>x. x \<in> set xs \<Longrightarrow> 1 \<le> length (f x)" "y \<in> set xs" "1 < length (f y)"
  shows "length xs < length (concat (map f xs))"
  using assms
proof (induction xs)
  case Nil
  then show ?case by simp
next
  case (Cons a xs)
  have a: "1 \<le> length (f a)" using Cons.prems(1) by simp
  have r: "length xs \<le> length (concat (map f xs))"
    using Cons.prems(1) by (intro length_concat_ge) simp
  show ?case
  proof (cases "y = a")
    case True
    then have "1 < length (f a)" using Cons.prems(3) by simp
    then show ?thesis using r by simp
  next
    case False
    then have "y \<in> set xs" using Cons.prems(2) by simp
    then have "length xs < length (concat (map f xs))"
      using Cons.IH Cons.prems(1,3) by simp
    then show ?thesis using a by simp
  qed
qed

text \<open>A block shorter than 64 characters has no character at position 63, which the
  initial permutation reads for its entry 24: the permuted text contains
  \<^verbatim>\<open>undefined\<close> and is longer than 64 characters.\<close>

lemma IP_24: "IP ! 24 = 64"
  by (simp add: IP_def)

lemma rangeBits_IP_short:
  assumes "length block < 64"
  shows "64 < length (rangeBits block IP 64)"
proof -
  define f where "f = (\<lambda>i. if i < length IP then jsIndex block (int (IP ! i) - 1)
                              else ''undefined'')"
  have ge: "1 \<le> length (f x)" for x
    using length_jsIndex_ge [of block "int (IP ! x) - 1"] by (simp add: f_def)
  have "f 24 = ''undefined''"
    using assms by (simp add: f_def table_lengths IP_24 jsIndex_def)
  then have gt: "1 < length (f 24)" by simp
  have "(24::nat) \<in> set [0..<64]" by simp
  then have "length [0..<64] < length (concat (map f [0..<64]))"
    using ge gt by (intro length_concat_gt [where y = 24]) auto
  then show ?thesis unfolding rangeBits_def f_def by simp
qed

lemma processBlock_short:
  assumes "length block < 64"
  shows "processBlock ka order block = Inl (Error ''Input must be a 64-bit binary string'')"
proof -
  have "length (rangeBits block IP 64) \<noteq> 64" using rangeBits_IP_short [OF assms] by simp
  then show ?thesis by (simp add: processBlock_def splitBinary_def Let_def)
qed

lemma createDESPlainText_loop_step:
  assumes "length ka = 16" "64 \<le> length tb"
  shows "createDESPlainText_loop ka tb 0 acc =
      createDESPlainText_loop ka tb 64 (acc @ blockPure ka (rev [0..<16]) (take 64 tb))"
proof -
  have l: "length (take 64 tb) = 64" using assms(2) by simp
  have pos: "0 < length tb" using assms(2) by (cases tb) simp_all
  have pb: "processBlock ka (rev [0..<16]) (take 64 tb) = Inr (blockPure ka (rev [0..<16]) (take 64 tb))"
    using l indices16(2) [OF assms(1)] by (rule processBlock_eq)
  show ?thesis
    using pos l pb by (subst createDESPlainText_loop.simps) (simp add: slice_0)
qed

lemma createDESPlainText_loop_incomplete:
  "length tb = 64 * n + r \<Longrightarrow> 0 < r \<Longrightarrow> r < 64 \<Longrightarrow> length ka = 16 \<Longrightarrow>
   createDESPlainText_loop ka tb 0 acc = Inl (Error ''Input must be a 64-bit binary string'')"
proof (induction n arbitrary: tb acc)
  case 0
  then have pos: "0 < length tb" and short: "length tb < 64" by simp_all
  have "slice tb 0 64 = tb" using short by (simp add: slice_0)
  then show ?case
    using pos processBlock_short [OF short, of ka "rev [0..<16]"]
    by (subst createDESPlainText_loop.simps) simp
next
  case (Suc n)
  have ge: "64 \<le> length tb" using Suc.prems(1) by simp
  have l: "length (take 64 tb) = 64" using ge by simp
  have ld: "length (drop 64 tb) = 64 * n + r" using Suc.prems(1) by simp
  have shift: "createDESPlainText_loop ka tb 64 a = createDESPlainText_loop ka (drop 64 tb) 0 a" for a
    using createDESPlainText_loop_shift [of ka "take 64 tb" "drop 64 tb" 0 a] l by simp
  show ?case
    unfolding createDESPlainText_loop_step [OF Suc.prems(4) ge] shift
    using ld Suc.prems(2,3,4) by (rule Suc.IH)
qed

lemma getDESPlainText_key_error:
  "getOutPutKeys K = Inl e \<Longrightarrow> getDESPlainText H K = Inl e"
  by (simp add: getDESPlainText_def createDESPlainText_def)

lemma getDESPlainText_incomplete:
  assumes "validKey K" "length H mod 16 \<noteq> 0"
  shows "getDESPlainText H K = Inl (Error ''Input must be a 64-bit binary string'')"
proof -
  obtain ka where ka: "getOutPutKeys K = Inr ka" "length ka = 16"
    using getOutPutKeys_valid [OF assms(1)] by blast
  define r where "r = length H mod 16"
  define n where "n = length H div 16"
  have r: "0 < r" "r < 16" using assms(2) by (simp_all add: r_def)
  have "length H = 16 * n + r"
    unfolding r_def n_def by simp
  then have "length (hexToBinary H) = 64 * n + 4 * r"
    by (simp add: length_hexToBinary)
  moreover have "0 < 4 * r" "4 * r < 64" using r by simp_all
  ultimately have "createDESPlainText_loop ka (hexToBinary H) 0 [] =
      Inl (Error ''Input must be a 64-bit binary string'')"
    using ka(2) by (rule createDESPlainText_loop_incomplete)
  then show ?thesis
    using ka(1) by (simp add: getDESPlainText_def createDESPlainText_def)
qed

lemma length_not_hex: "length (js ''not-hex!!'') = 9"
  by (simp add: js_def)

text \<open>
  Claim C3 (as amended). For every key the cipher accepts (non-empty, every code unit at
  most 127): the decoded bit string has 4 characters per character of the ciphertext
  string, whatever the characters are; when its length is not a multiple of 64,
  decryption fails with the error \<^verbatim>\<open>Input must be a 64-bit binary string\<close>; in
  particular decrypting \<^verbatim>\<open>not-hex!!\<close> fails with that error.
\<close>

theorem decrypt_rejects_incomplete_block:
  assumes "validKey K"
  shows "length (hexToBinary H) = 4 * length H
     \<and> (length (hexToBinary H) mod 64 \<noteq> 0 \<longrightarrow>
          getDESPlainText H K = Inl (Error ''Input must be a 64-bit binary string''))
     \<and> getDESPlainText (js ''not-hex!!'') K = Inl (Error ''Input must be a 64-bit binary string'')"
proof -
  have a: "getDESPlainText H K = Inl (Error ''Input must be a 64-bit binary string'')"
    if m: "length (hexToBinary H) mod 64 \<noteq> 0"
  proof -
    have "length H mod 16 \<noteq> 0"
    proof
      assume "length H mod 16 = 0"
      then have "16 dvd length H" by (simp add: dvd_eq_mod_eq_0)
      then have "4 * 16 dvd 4 * length H" by (rule mult_dvd_mono [OF dvd_refl])
      then have "length (hexToBinary H) mod 64 = 0" by (simp add: length_hexToBinary)
      then show False using m by simp
    qed
    with assms show ?thesis by (rule getDESPlainText_incomplete)
  qed
  have c: "getDESPlainText (js ''not-hex!!'') K = Inl (Error ''Input must be a 64-bit binary string'')"
    using assms by (rule getDESPlainText_incomplete) (simp add: length_not_hex)
  show ?thesis using a c by (simp add: length_hexToBinary)
qed

theorem decrypt_rejects_incomplete_block_witness:
  "validKey (js ''A'') \<and> length (hexToBinary (js ''not-hex!!'')) = 36
   \<and> length (hexToBinary (js ''not-hex!!'')) mod 64 \<noteq> 0
   \<and> getDESPlainText (js ''not-hex!!'') (js ''A'') =
       Inl (Error ''Input must be a 64-bit binary string'')"
  using decrypt_rejects_incomplete_block [OF validKey_A, of "js ''not-hex!!''"] validKey_A
  by (simp add: length_not_hex)

lemma hexToBinary_Z:
  "hexToBinary (js ''ZZZZZZZZZZZZZZZZ'') =
     ''0NaN0NaN0NaN0NaN0NaN0NaN0NaN0NaN0NaN0NaN0NaN0NaN0NaN0NaN0NaN0NaN''"
  by (simp add: hexToBinary_def js_def parseInt16_def numToString_def padStart_def Let_def)

lemma decrypt_Z_block:
  "processBlock roundKeysA (rev [0..<16])
      ''0NaN0NaN0NaN0NaN0NaN0NaN0NaN0NaN0NaN0NaN0NaN0NaN0NaN0NaN0NaN0NaN'' =
     Inr ''0101100011101100110011110010001010101111111101010100101011100111''"
  by code_simp

lemma recoveredBytes_Z:
  "recoveredBytes roundKeysA (js ''ZZZZZZZZZZZZZZZZ'') = [88, 236, 207, 34, 175, 245, 74, 231]"
proof -
  have "plainBits roundKeysA ''0NaN0NaN0NaN0NaN0NaN0NaN0NaN0NaN0NaN0NaN0NaN0NaN0NaN0NaN0NaN0NaN''
      = ''0101100011101100110011110010001010101111111101010100101011100111''"
    using _ roundKeysA_shape(1) decrypt_Z_block by (rule plainBits_one_block) simp
  moreover have "bytesOfBits ''0101100011101100110011110010001010101111111101010100101011100111''
      = [88, 236, 207, 34, 175, 245, 74, 231]"
    by code_simp
  ultimately show ?thesis by (simp add: recoveredBytes_def hexToBinary_Z)
qed

lemma utf8_decode_Z:
  "utf8_decode [88, 236, 207, 34, 175, 245, 74, 231] =
     [Some 88, None, None, Some 34, None, None, Some 74, None]"
  by (simp add: utf8_decode_def utf8_handler_def utf8_init_def Let_def)

lemma hexToBinary_17_zeros:
  "hexToBinary (js ''00000000000000000'') =
     ''00000000000000000000000000000000000000000000000000000000000000000000''"
  by (simp add: hexToBinary_def js_def parseInt16_def numToString_def padStart_def
        toStringRadix.simps digitChar_def replicate_3)

text \<open>
  Counterexample to claim C3 as stated. With key \<^verbatim>\<open>A\<close> the string of sixteen
  \<^verbatim>\<open>Z\<close>, none of them a hexadecimal digit, is decrypted to a string and no error is
  raised. With the non-ASCII key U+00E9 decrypting \<^verbatim>\<open>not-hex!!\<close> fails with the error
  of the key derivation, not with an error about the ciphertext. For a ciphertext of
  seventeen characters the first block has been decrypted (the loop stands at position
  64 with its 64 plaintext bits) before the incomplete block is looked at.
\<close>

theorem non_hex_ciphertext_is_decrypted_counterexample:
  "getDESPlainText (js ''ZZZZZZZZZZZZZZZZ'') (js ''A'') =
       Inr [0x58, 0xFFFD, 0xFFFD, 0x22, 0xFFFD, 0xFFFD, 0x4A, 0xFFFD]
   \<and> getDESPlainText (js ''not-hex!!'') [0xE9] = Inl (Error ''Only ASCII characters are allowed'')
   \<and> createDESPlainText_loop roundKeysA (hexToBinary (js ''00000000000000000'')) 0 [] =
       createDESPlainText_loop roundKeysA (hexToBinary (js ''00000000000000000'')) 64
         ''1001011001011100000011110011111101110100001001011111000110011010''"
proof -
  have "length (js ''ZZZZZZZZZZZZZZZZ'') = 16" by (simp add: js_def)
  then have l: "16 dvd length (js ''ZZZZZZZZZZZZZZZZ'')" by simp
  obtain ka where ka: "getOutPutKeys (js ''A'') = Inr ka"
    "getDESPlainText (js ''ZZZZZZZZZZZZZZZZ'') (js ''A'') =
       TextDecoder_decode False False (recoveredBytes ka (js ''ZZZZZZZZZZZZZZZZ''))"
    using getDESPlainText_blocks [OF validKey_A l] by blast
  have "ka = roundKeysA" using ka(1) by (simp add: getOutPutKeys_A)
  then have "getDESPlainText (js ''ZZZZZZZZZZZZZZZZ'') (js ''A'') =
      TextDecoder_decode False False [88, 236, 207, 34, 175, 245, 74, 231]"
    using ka(2) by (simp add: recoveredBytes_Z)
  also have "\<dots> = Inr [0x58, 0xFFFD, 0xFFFD, 0x22, 0xFFFD, 0xFFFD, 0x4A, 0xFFFD]"
    unfolding TextDecoder_decode_nonfatal utf8_decode_Z
    by (simp add: dropBOM_def utf16_units_def)
  finally have z: "getDESPlainText (js ''ZZZZZZZZZZZZZZZZ'') (js ''A'') =
      Inr [0x58, 0xFFFD, 0xFFFD, 0x22, 0xFFFD, 0xFFFD, 0x4A, 0xFFFD]" .
  have "\<not> asciiStr [0xE9]" by simp
  then have "getOutPutKeys [0xE9] = Inl (Error ''Only ASCII characters are allowed'')"
    by (rule getOutPutKeys_nonascii)
  then have k: "getDESPlainText (js ''not-hex!!'') [0xE9] =
      Inl (Error ''Only ASCII characters are allowed'')"
    by (rule getDESPlainText_key_error)
  have s: "createDESPlainText_loop roundKeysA
        ''00000000000000000000000000000000000000000000000000000000000000000000'' 0 [] =
      createDESPlainText_loop roundKeysA
        ''00000000000000000000000000000000000000000000000000000000000000000000'' 64
        ''1001011001011100000011110011111101110100001001011111000110011010''"
    by (subst createDESPlainText_loop.simps) (simp add: slice_def decrypt_zero_block)
  show ?thesis using z k s by (simp only: hexToBinary_17_zeros simp_thms)
qed

end
